theory Spec2Isabelle
  imports Main "HOL-Library.AList"
begin

section \<open>The array library used by \<^verbatim>\<open>chainer/dataset/convert.py\<close>\<close>

text \<open>
  The module calls numpy (and cupy, which follows numpy) for every operation on arrays.
  An array is a shape, a dtype, the elements in row-major order and the place where
  it resides. The dtypes of this development are the boolean dtype (\<open>bool8\<close>) and
  three integer dtypes; an element is stored as the integer it denotes (\<open>True\<close> is 1).
  Floating dtypes are not represented.
\<close>

datatype dtype = bool8 | uint8 | int32 | int64

fun itemsize :: "dtype \<Rightarrow> nat" where
  "itemsize bool8 = 1"
| "itemsize uint8 = 1"
| "itemsize int32 = 4"
| "itemsize int64 = 8"

text \<open>
  Conversion of a value to a dtype, as an assignment into an array of that dtype does
  it: integers wrap around, a boolean is 1 exactly for a value that is not 0.
\<close>

fun astype :: "dtype \<Rightarrow> int \<Rightarrow> int" where
  "astype bool8 v = (if v = 0 then 0 else 1)"
| "astype uint8 v = v mod 256"
| "astype int32 v = (v + 2147483648) mod 4294967296 - 2147483648"
| "astype int64 v = (v + 9223372036854775808) mod 18446744073709551616 - 9223372036854775808"

text \<open>Type promotion: on these four dtypes the result type is the later one in
  the order \<open>bool8, uint8, int32, int64\<close>.\<close>

fun dtype_rank :: "dtype \<Rightarrow> nat" where
  "dtype_rank bool8 = 0"
| "dtype_rank uint8 = 1"
| "dtype_rank int32 = 2"
| "dtype_rank int64 = 3"

definition result_type :: "dtype \<Rightarrow> dtype \<Rightarrow> dtype" where
  "result_type a b = (if dtype_rank a \<le> dtype_rank b then b else a)"

datatype device = Host | Gpu nat

record ndarray =
  shape :: "nat list"
  dtype :: dtype
  data :: "int list"
  device :: device

datatype error =
  ValueError | TypeError | AttributeError | IndexError | KeyError | UnboundLocalError
  | OverflowError

definition nbytes :: "ndarray \<Rightarrow> nat" where
  "nbytes a = prod_list (shape a) * itemsize (dtype a)"

text \<open>Row-major addressing: the position of a multi-index in the flat data, and
  the multi-indices of a shape in the order of their positions.\<close>

fun offset :: "nat list \<Rightarrow> nat list \<Rightarrow> nat" where
  "offset (d # ds) (i # js) = i * prod_list ds + offset ds js"
| "offset _ _ = 0"

fun indices :: "nat list \<Rightarrow> nat list list" where
  "indices [] = [[]]"
| "indices (d # ds) = concat (map (\<lambda>i. map ((#) i) (indices ds)) [0..<d])"

definition inside :: "nat list \<Rightarrow> nat list \<Rightarrow> bool" where
  "inside s j = list_all2 (<) j s"

definition getitem :: "ndarray \<Rightarrow> nat list \<Rightarrow> int" where
  "getitem a j = data a ! offset (shape a) j"

text \<open>
  \<^verbatim>\<open>xp.full(shape, fill, dtype=dt)\<close> for a fill value that is a built-in integer. An
  integer that fits neither \<open>int64\<close> nor \<open>uint64\<close> is an object to numpy, and its
  conversion to an integer dtype raises \<^verbatim>\<open>OverflowError\<close>; its conversion to the boolean
  dtype is its truth value. The other integers are converted as \<open>astype\<close> says by the
  numpy of the time of the module (numpy 1), which wraps a value that the dtype does
  not represent; numpy 2 raises \<^verbatim>\<open>OverflowError\<close> for such a value. The two agree on
  the values of the dtype. \<open>filled\<close> is the array that is returned.
\<close>

definition filled :: "nat list \<Rightarrow> int \<Rightarrow> dtype \<Rightarrow> device \<Rightarrow> ndarray" where
  "filled s fill dt dev =
     \<lparr>shape = s, dtype = dt, data = replicate (prod_list s) (astype dt fill), device = dev\<rparr>"

definition np_full :: "nat list \<Rightarrow> int \<Rightarrow> dtype \<Rightarrow> device \<Rightarrow> error + ndarray" where
  "np_full s fill dt dev =
     (if dt \<noteq> bool8 \<and> (fill < - 9223372036854775808 \<or> 18446744073709551616 \<le> fill)
      then Inl OverflowError
      else Inr (filled s fill dt dev))"

subsection \<open>Broadcasting\<close>

text \<open>
  Two vectors combine elementwise when their lengths are equal or one of them has
  length 1; the source uses this on the shape vectors (\<^verbatim>\<open>shape != array.shape\<close>,
  \<^verbatim>\<open>numpy.maximum(shape, array.shape, shape)\<close>). A comparison of vectors that do not
  combine raises, or yields a value on which the following \<^verbatim>\<open>numpy.maximum\<close> raises.
\<close>

definition bcast_len :: "nat \<Rightarrow> nat \<Rightarrow> nat option" where
  "bcast_len a b =
     (if a = b then Some a else if a = 1 then Some b else if b = 1 then Some a else None)"

definition bget :: "nat list \<Rightarrow> nat \<Rightarrow> nat" where
  "bget xs k = (if length xs = 1 then xs ! 0 else xs ! k)"

definition np_not_equal :: "nat list \<Rightarrow> nat list \<Rightarrow> error + bool list" where
  "np_not_equal m s =
     (case bcast_len (length m) (length s) of
        None \<Rightarrow> Inl ValueError
      | Some l \<Rightarrow> Inr (map (\<lambda>k. bget m k \<noteq> bget s k) [0..<l]))"

definition np_any :: "bool list \<Rightarrow> bool" where
  "np_any bs = list_ex (\<lambda>b. b) bs"

text \<open>\<^verbatim>\<open>numpy.maximum(m, s, m)\<close>: the output operand \<open>m\<close> must have the combined length.\<close>

definition np_maximum :: "nat list \<Rightarrow> nat list \<Rightarrow> error + nat list" where
  "np_maximum m s =
     (case bcast_len (length m) (length s) of
        None \<Rightarrow> Inl ValueError
      | Some l \<Rightarrow>
          if l \<noteq> length m then Inl ValueError
          else Inr (map (\<lambda>k. max (bget m k) (bget s k)) [0..<l]))"

text \<open>
  Assignment of an array into a region of another one broadcasts the source to the
  shape of the region: leading axes of length 1 that the region does not have are
  dropped, the remaining axes are aligned at the right, and each must have length 1
  or the length of the region's axis.
\<close>

fun strip_ones :: "nat \<Rightarrow> nat list \<Rightarrow> nat list" where
  "strip_ones n [] = []"
| "strip_ones n (d # ds) =
     (if n < length (d # ds) \<and> d = 1 then strip_ones n ds else d # ds)"

definition broadcastable :: "nat list \<Rightarrow> nat list \<Rightarrow> bool" where
  "broadcastable s b =
     (let s' = strip_ones (length b) s; p = length b - length s'
      in length s' \<le> length b \<and>
         list_all (\<lambda>k. s' ! k = 1 \<or> s' ! k = b ! (k + p)) [0..<length s'])"

definition bsource :: "nat list \<Rightarrow> nat list \<Rightarrow> nat list \<Rightarrow> nat" where
  "bsource s b j =
     (let s' = strip_ones (length b) s; p = length b - length s'
      in offset s' (map (\<lambda>k. if s' ! k = 1 then 0 else j ! (k + p)) [0..<length s']))"

text \<open>
  \<open>assign dst pre b src\<close> is \<^verbatim>\<open>dst[pre + slices] = src\<close>, where \<open>pre\<close> are leading integer
  indices and the slices select the box \<open>b\<close> at the origin of the remaining axes.
  The elements are converted to the dtype of \<open>dst\<close>.
\<close>

definition assign :: "ndarray \<Rightarrow> nat list \<Rightarrow> nat list \<Rightarrow> ndarray \<Rightarrow> error + ndarray" where
  "assign dst pre b src =
     (if \<not> broadcastable (shape src) b then Inl ValueError
      else Inr (dst\<lparr>data :=
        map (\<lambda>j. if take (length pre) j = pre \<and> inside b (drop (length pre) j)
                  then astype (dtype dst) (data src ! bsource (shape src) b (drop (length pre) j))
                  else data dst ! offset (shape dst) j)
            (indices (shape dst))\<rparr>))"


text \<open>\<^verbatim>\<open>a[i]\<close> for an integer \<open>i\<close>, and \<^verbatim>\<open>a[None]\<close>, which adds a leading axis of length 1.\<close>

definition row :: "ndarray \<Rightarrow> nat \<Rightarrow> ndarray" where
  "row a i =
     (let p = prod_list (tl (shape a))
      in a\<lparr>shape := tl (shape a), data := take p (drop (i * p) (data a))\<rparr>)"

definition add_axis :: "ndarray \<Rightarrow> ndarray" where
  "add_axis a = a\<lparr>shape := 1 # shape a\<rparr>"

text \<open>
  \<^verbatim>\<open>xp.concatenate(parts)\<close> along the first axis: the parts must have an axis to join
  and agree on all other axes. The result has the promoted dtype, and resides where
  the first part does.
\<close>

definition np_concatenate :: "ndarray list \<Rightarrow> error + ndarray" where
  "np_concatenate parts =
     (case parts of
        [] \<Rightarrow> Inl ValueError
      | a # rest \<Rightarrow>
          if list_ex (\<lambda>b. shape b = []) parts then Inl ValueError
          else if list_ex (\<lambda>b. tl (shape b) \<noteq> tl (shape a)) rest then Inl ValueError
          else
            let dt = fold (\<lambda>b d. result_type d (dtype b)) rest (dtype a)
            in Inr \<lparr>shape = sum_list (map (\<lambda>b. hd (shape b)) parts) # tl (shape a),
                    dtype = dt,
                    data = concat (map (\<lambda>b. map (astype dt) (data b)) parts),
                    device = device a\<rparr>)"

section \<open>Examples, batches and padding\<close>

text \<open>
  A slot of an example holds an array or a built-in scalar; a scalar is kept with the
  dtype numpy reads it with. An example is such a value, a tuple of them or a mapping
  from keys to them. The padding argument is \<open>None\<close>, a scalar (a built-in integer,
  of any size), or a tuple or mapping of paddings.
\<close>

datatype pyval = PyScalar dtype int | NdArray ndarray

datatype example = Val pyval | Tuple "pyval list" | Dict "(string \<times> pyval) list"

datatype padding = PNone | PScalar int | PTuple "padding list" | PDict "(string \<times> padding) list"

datatype result = RArray ndarray | RTuple "ndarray list" | RDict "(string \<times> ndarray) list"

text \<open>A list comprehension stops at the first element that raises.\<close>

fun list_comp :: "('a \<Rightarrow> error + 'b) \<Rightarrow> 'a list \<Rightarrow> error + 'b list" where
  "list_comp f [] = Inr []"
| "list_comp f (x # xs) =
     (case f x of
        Inl e \<Rightarrow> Inl e
      | Inr y \<Rightarrow> (case list_comp f xs of Inl e \<Rightarrow> Inl e | Inr ys \<Rightarrow> Inr (y # ys)))"

text \<open>\<^verbatim>\<open>example[i]\<close> and \<^verbatim>\<open>example[key]\<close>, whatever the example is.\<close>

fun subscript_int :: "nat \<Rightarrow> example \<Rightarrow> error + pyval" where
  "subscript_int i (Tuple xs) = (if i < length xs then Inr (xs ! i) else Inl IndexError)"
| "subscript_int i (Dict kvs) = Inl KeyError"
| "subscript_int i (Val (PyScalar d v)) = Inl TypeError"
| "subscript_int i (Val (NdArray a)) =
     (case shape a of
        [] \<Rightarrow> Inl IndexError
      | n # s \<Rightarrow> if i < n then Inr (NdArray (row a i)) else Inl IndexError)"

fun subscript_key :: "string \<Rightarrow> example \<Rightarrow> error + pyval" where
  "subscript_key k (Dict kvs) = (case map_of kvs k of None \<Rightarrow> Inl KeyError | Some v \<Rightarrow> Inr v)"
| "subscript_key k (Tuple xs) = Inl TypeError"
| "subscript_key k (Val (PyScalar d v)) = Inl TypeError"
| "subscript_key k (Val (NdArray a)) = Inl IndexError"

text \<open>Attribute access \<^verbatim>\<open>array.shape\<close>, \<^verbatim>\<open>array.dtype\<close>: only an array has them.\<close>

fun as_array :: "example \<Rightarrow> error + ndarray" where
  "as_array (Val (NdArray a)) = Inr a"
| "as_array _ = Inl AttributeError"

text \<open>\<^verbatim>\<open>array[None]\<close> on the elements of a batch.\<close>

fun subscript_none :: "example \<Rightarrow> error + ndarray" where
  "subscript_none (Val (NdArray a)) = Inr (add_axis a)"
| "subscript_none (Val (PyScalar d v)) = Inl TypeError"
| "subscript_none (Tuple xs) = Inl TypeError"
| "subscript_none (Dict kvs) = Inl KeyError"

text \<open>
  \<^verbatim>\<open>numpy.asarray(arrays)\<close> on a list of built-in scalars (and arrays without axes)
  gives a host array with one axis and the promoted dtype. A list with anything else
  in it is ragged or nested: numpy raises or builds an array of objects there, which
  this development does not represent, and the model raises. The list is given as
  its first element and the others: the module converts a list only after it has
  read \<^verbatim>\<open>arrays[0]\<close>.
\<close>

fun scalar_of :: "example \<Rightarrow> (dtype \<times> int) option" where
  "scalar_of (Val (PyScalar d v)) = Some (d, v)"
| "scalar_of (Val (NdArray a)) = (if shape a = [] then Some (dtype a, data a ! 0) else None)"
| "scalar_of _ = None"

definition read_scalar :: "example \<Rightarrow> error + dtype \<times> int" where
  "read_scalar y = (case scalar_of y of None \<Rightarrow> Inl ValueError | Some s \<Rightarrow> Inr s)"

definition np_asarray :: "example \<Rightarrow> example list \<Rightarrow> error + ndarray" where
  "np_asarray x xs =
     (case read_scalar x of
        Inl e \<Rightarrow> Inl e
      | Inr s0 \<Rightarrow>
          (case list_comp read_scalar xs of
             Inl e \<Rightarrow> Inl e
           | Inr ss \<Rightarrow>
               let dt = fold (\<lambda>s d. result_type d (fst s)) ss (fst s0)
               in Inr \<lparr>shape = [Suc (length ss)], dtype = dt,
                       data = map (\<lambda>s. astype dt (snd s)) (s0 # ss), device = Host\<rparr>))"

text \<open>The elements of an array along its first axis, as iteration yields them.\<close>

definition elements :: "ndarray \<Rightarrow> example list" where
  "elements a =
     (case shape a of
        [] \<Rightarrow> []
      | n # s \<Rightarrow> map (\<lambda>i. Val (NdArray (row a i))) [0..<n])"

section \<open>Array concatenation\<close>

text \<open>The fill value handed to \<^verbatim>\<open>xp.full\<close>: a scalar is a number; anything else is not
  (a tuple, which numpy may broadcast, is not represented as a fill value).\<close>

fun fill_value :: "padding \<Rightarrow> error + int" where
  "fill_value (PScalar v) = Inr v"
| "fill_value _ = Inl TypeError"

text \<open>Lines 134 to 136: the loop over \<^verbatim>\<open>arrays[1:]\<close> that grows \<open>shape\<close>.\<close>

fun max_shape :: "nat list \<Rightarrow> example list \<Rightarrow> error + nat list" where
  "max_shape m [] = Inr m"
| "max_shape m (x # xs) =
     (case as_array x of
        Inl e \<Rightarrow> Inl e
      | Inr a \<Rightarrow>
          (case np_not_equal m (shape a) of
             Inl e \<Rightarrow> Inl e
           | Inr ne \<Rightarrow>
               if np_any ne
               then (case np_maximum m (shape a) of
                       Inl e \<Rightarrow> Inl e
                     | Inr m' \<Rightarrow> max_shape m' xs)
               else max_shape m xs))"

text \<open>Line 145, \<^verbatim>\<open>result[(i,) + slices] = src\<close> with one slice \<^verbatim>\<open>slice(dim)\<close> for each axis
  of \<open>src\<close>: more indices than \<open>result\<close> has axes is an error; a slice is cut at the
  end of its axis.\<close>

definition setitem_slices :: "ndarray \<Rightarrow> nat \<Rightarrow> ndarray \<Rightarrow> error + ndarray" where
  "setitem_slices result i src =
     (case shape result of
        [] \<Rightarrow> Inl IndexError
      | n # m \<Rightarrow>
          if length m < length (shape src) \<or> n \<le> i then Inl IndexError
          else assign result [i]
                 (map2 min (shape src) m @ drop (length (shape src)) m) src)"

text \<open>Lines 142 to 145: the loop that copies the examples in.\<close>

fun copy_loop :: "ndarray \<Rightarrow> nat \<Rightarrow> example list \<Rightarrow> error + ndarray" where
  "copy_loop result i [] = Inr result"
| "copy_loop result i (x # xs) =
     (case as_array x of
        Inl e \<Rightarrow> Inl e
      | Inr src \<Rightarrow>
          (case setitem_slices result i src of
             Inl e \<Rightarrow> Inl e
           | Inr r \<Rightarrow> copy_loop r (Suc i) xs))"

text \<open>
  \<^verbatim>\<open>_concat_arrays_with_padding\<close>. The array module and the device are those of the
  first array: \<^verbatim>\<open>cuda.get_array_module\<close> and \<^verbatim>\<open>cuda.get_device_from_array\<close> are not among
  the sources, and the spec says that concatenation executes on the device of the
  first input and that the result remains there.
\<close>

definition concat_arrays_with_padding :: "example list \<Rightarrow> padding \<Rightarrow> error + ndarray" where
  "concat_arrays_with_padding arrays pad =
     (case arrays of
        [] \<Rightarrow> Inl IndexError
      | x # rest \<Rightarrow>
          (case as_array x of
             Inl e \<Rightarrow> Inl e
           | Inr a0 \<Rightarrow>
               (case max_shape (shape a0) rest of
                  Inl e \<Rightarrow> Inl e
                | Inr m \<Rightarrow>
                    (case fill_value pad of
                       Inl e \<Rightarrow> Inl e
                     | Inr v \<Rightarrow>
                         (case np_full (length arrays # m) v (dtype a0) (device a0) of
                            Inl e \<Rightarrow> Inl e
                          | Inr result \<Rightarrow> copy_loop result 0 arrays)))))"

text \<open>\<^verbatim>\<open>_concat_arrays\<close>.\<close>

fun is_ndarray :: "example \<Rightarrow> bool" where
  "is_ndarray (Val (NdArray a)) = True"
| "is_ndarray _ = False"

definition concat_arrays :: "example list \<Rightarrow> padding \<Rightarrow> error + ndarray" where
  "concat_arrays arrays pad =
     (case arrays of
        [] \<Rightarrow> Inl IndexError
      | x # rest \<Rightarrow>
          (case (if \<not> is_ndarray x
                 then (case np_asarray x rest of Inl e \<Rightarrow> Inl e | Inr a \<Rightarrow> Inr (elements a))
                 else Inr arrays) of
             Inl e \<Rightarrow> Inl e
           | Inr arrays' \<Rightarrow>
               if pad \<noteq> PNone then concat_arrays_with_padding arrays' pad
               else (case list_comp subscript_none arrays' of
                       Inl e \<Rightarrow> Inl e
                     | Inr parts \<Rightarrow> np_concatenate parts)))"


section \<open>Device placement\<close>

text \<open>
  Modelled from the spec: \<^verbatim>\<open>cuda.to_cpu\<close> belongs to the module \<^verbatim>\<open>chainer.cuda\<close>, which
  is not among the sources. The spec says of it: copy to host if the identifier is
  negative. The copy is an equal array that resides in host memory.
\<close>

definition to_cpu :: "ndarray \<Rightarrow> ndarray" where
  "to_cpu x = x\<lparr>device := Host\<rparr>"

text \<open>
  Modelled from the spec: \<^verbatim>\<open>cuda.to_gpu\<close> belongs to \<^verbatim>\<open>chainer.cuda\<close> as well. The spec
  says of it: copy to the named accelerator otherwise. The copy is an equal array
  that resides on the accelerator with that index.
\<close>

definition to_gpu :: "ndarray \<Rightarrow> int \<Rightarrow> ndarray" where
  "to_gpu x d = x\<lparr>device := Gpu (nat d)\<rparr>"

fun to_device :: "int option \<Rightarrow> ndarray \<Rightarrow> ndarray" where
  "to_device None x = x"
| "to_device (Some d) x = (if d < 0 then to_cpu x else to_gpu x d)"

section \<open>Batch structure dispatch\<close>

text \<open>The per-slot paddings: \<^verbatim>\<open>[padding] * len(first_elem)\<close> or
  \<^verbatim>\<open>{key: padding for key in first_elem}\<close> unless the padding is a tuple or a mapping
  already. \<^verbatim>\<open>padding[i]\<close> and \<^verbatim>\<open>padding[key]\<close> raise where there is no such slot.\<close>

fun tuple_padding :: "padding \<Rightarrow> nat \<Rightarrow> padding list" where
  "tuple_padding (PTuple ps) n = ps"
| "tuple_padding p n = replicate n p"

fun dict_padding :: "padding \<Rightarrow> string list \<Rightarrow> (string \<times> padding) list" where
  "dict_padding (PDict kps) keys = kps"
| "dict_padding p keys = map (\<lambda>k. (k, p)) keys"

definition padding_at :: "padding list \<Rightarrow> nat \<Rightarrow> error + padding" where
  "padding_at ps i = (if i < length ps then Inr (ps ! i) else Inl IndexError)"

definition padding_of :: "(string \<times> padding) list \<Rightarrow> string \<Rightarrow> error + padding" where
  "padding_of kps k = (case map_of kps k of None \<Rightarrow> Inl KeyError | Some p \<Rightarrow> Inr p)"

text \<open>One slot of a tuple batch and of a mapping batch (lines 98 to 99 and 109 to 110,
  without the device placement): the comprehension is evaluated before the padding
  is looked up.\<close>

definition concat_slot :: "example list \<Rightarrow> padding list \<Rightarrow> nat \<Rightarrow> error + ndarray" where
  "concat_slot batch ps i =
     (case list_comp (subscript_int i) batch of
        Inl e \<Rightarrow> Inl e
      | Inr vs \<Rightarrow>
          (case padding_at ps i of
             Inl e \<Rightarrow> Inl e
           | Inr p \<Rightarrow> concat_arrays (map Val vs) p))"

definition concat_key :: "example list \<Rightarrow> (string \<times> padding) list \<Rightarrow> string \<Rightarrow> error + ndarray" where
  "concat_key batch kps k =
     (case list_comp (subscript_key k) batch of
        Inl e \<Rightarrow> Inl e
      | Inr vs \<Rightarrow>
          (case padding_of kps k of
             Inl e \<Rightarrow> Inl e
           | Inr p \<Rightarrow> concat_arrays (map Val vs) p))"

fun tuple_loop :: "example list \<Rightarrow> int option \<Rightarrow> padding list \<Rightarrow> nat list \<Rightarrow> ndarray list
    \<Rightarrow> error + ndarray list" where
  "tuple_loop batch dev ps [] res = Inr res"
| "tuple_loop batch dev ps (i # rest) res =
     (case concat_slot batch ps i of
        Inl e \<Rightarrow> Inl e
      | Inr a \<Rightarrow> tuple_loop batch dev ps rest (res @ [to_device dev a]))"

fun dict_loop :: "example list \<Rightarrow> int option \<Rightarrow> (string \<times> padding) list \<Rightarrow> string list
    \<Rightarrow> (string \<times> ndarray) list \<Rightarrow> error + (string \<times> ndarray) list" where
  "dict_loop batch dev kps [] res = Inr res"
| "dict_loop batch dev kps (k # rest) res =
     (case concat_key batch kps k of
        Inl e \<Rightarrow> Inl e
      | Inr a \<Rightarrow> dict_loop batch dev kps rest (AList.update k (to_device dev a) res))"

definition concat_examples :: "example list \<Rightarrow> int option \<Rightarrow> padding \<Rightarrow> error + result" where
  "concat_examples batch dev pad =
     (if length batch = 0 then Inl ValueError
      else
        (case hd batch of
           Tuple first_elem \<Rightarrow>
             (case tuple_loop batch dev (tuple_padding pad (length first_elem))
                     [0..<length first_elem] [] of
                Inl e \<Rightarrow> Inl e
              | Inr res \<Rightarrow> Inr (RTuple res))
         | Dict first_elem \<Rightarrow>
             (case dict_loop batch dev (dict_padding pad (map fst first_elem))
                     (map fst first_elem) [] of
                Inl e \<Rightarrow> Inl e
              | Inr res \<Rightarrow> Inr (RDict res))
         | Val v \<Rightarrow>
             (case concat_arrays batch pad of
                Inl e \<Rightarrow> Inl e
              | Inr a \<Rightarrow> Inr (RArray (to_device dev a)))))"


section \<open>The double-buffered transfer channel\<close>

text \<open>
  The accelerator runtime is not part of the module; what the channel asks of it is
  recorded, in order, in a trace of events. A stream is named by the device it was
  created on.
\<close>

datatype stream = Stream nat

datatype event =
    DeviceSynchronize
  | AllocPinned nat
  | EmptyLike "nat list" dtype
  | CopyToPinned
  | CopyAsync stream
  | StreamCreate nat

record conveyer =
  cv_device :: "int option"
  cv_stream :: "stream option"
  array_set :: "(ndarray option \<times> ndarray option) list"

text \<open>\<^verbatim>\<open>Conveyer.__init__\<close>.\<close>

definition Conveyer :: "int option \<Rightarrow> stream option \<Rightarrow> conveyer" where
  "Conveyer dev st = \<lparr>cv_device = dev, cv_stream = st, array_set = [(None, None), (None, None)]\<rparr>"

text \<open>
  \<^verbatim>\<open>cp_array.set(pin_array, stream)\<close>: cupy refuses a host array of another dtype or
  shape, and otherwise fills the device array with its elements.
\<close>

definition cupy_set :: "ndarray \<Rightarrow> ndarray \<Rightarrow> error + ndarray" where
  "cupy_set cp pin =
     (if dtype cp \<noteq> dtype pin then Inl TypeError
      else if shape cp \<noteq> shape pin then Inl ValueError
      else Inr (cp\<lparr>data := data pin\<rparr>))"

text \<open>
  Lines 282 to 286, after the buffers have been chosen: \<^verbatim>\<open>pin_array[...] = array\<close>
  broadcasts and converts \<open>array\<close> into the pinned buffer and raises when it does not
  fit; then the asynchronous copy is issued and the pair is appended. The channel
  \<open>c\<close> is the one the pair has been popped from.
\<close>

definition transfer ::
  "conveyer \<Rightarrow> stream \<Rightarrow> ndarray \<Rightarrow> ndarray option \<Rightarrow> ndarray \<Rightarrow> event list
    \<Rightarrow> (error + ndarray) \<times> conveyer \<times> event list" where
  "transfer c st pin cp array tr =
     (case assign pin [] (shape pin) array of
        Inl e \<Rightarrow> (Inl e, c, tr)
      | Inr pin' \<Rightarrow>
          (case cp of
             None \<Rightarrow> (Inl AttributeError, c, tr @ [CopyToPinned])
           | Some cp_array \<Rightarrow>
               (case cupy_set cp_array pin' of
                  Inl e \<Rightarrow> (Inl e, c, tr @ [CopyToPinned])
                | Inr cp' \<Rightarrow>
                    (Inr cp',
                     c\<lparr>array_set := array_set c @ [(Some pin', Some cp')]\<rparr>,
                     tr @ [CopyToPinned, CopyAsync st]))))"

text \<open>
  The buffers allocated at lines 275 to 280: a pinned host array and a device array
  of the shape and dtype of \<open>array\<close>. Their elements are not initialised; both are
  overwritten before they are read.
\<close>

definition fresh_buffer :: "ndarray \<Rightarrow> device \<Rightarrow> ndarray" where
  "fresh_buffer array dev =
     \<lparr>shape = shape array, dtype = dtype array,
      data = replicate (prod_list (shape array)) 0, device = dev\<rparr>"

text \<open>\<^verbatim>\<open>Conveyer.__call__\<close>: the result or the error, the channel afterwards and the
  trace afterwards.\<close>

definition conveyer_call ::
  "conveyer \<Rightarrow> ndarray \<Rightarrow> event list \<Rightarrow> (error + ndarray) \<times> conveyer \<times> event list" where
  "conveyer_call c array tr =
     (case (cv_device c, cv_stream c) of
        (None, _) \<Rightarrow> (Inr (to_device (cv_device c) array), c, tr)
      | (Some d, None) \<Rightarrow> (Inr (to_device (cv_device c) array), c, tr)
      | (Some d, Some st) \<Rightarrow>
          if d < 0 then (Inr (to_device (cv_device c) array), c, tr)
          else
            (case array_set c of
               [] \<Rightarrow> (Inl IndexError, c, tr)
             | (pin0, cp0) # rest \<Rightarrow>
                 let c1 = c\<lparr>array_set := rest\<rparr>;
                     pin1 = (case pin0 of
                               None \<Rightarrow> None
                             | Some p \<Rightarrow> if nbytes p \<noteq> nbytes array then None else Some p)
                 in (case pin1 of
                       None \<Rightarrow>
                         transfer c1 st (fresh_buffer array Host)
                           (Some (fresh_buffer array (Gpu (nat d)))) array
                           (tr @ [DeviceSynchronize, AllocPinned (nbytes array),
                                  EmptyLike (shape array) (dtype array)])
                     | Some p \<Rightarrow> transfer c1 st p cp0 array tr)))"

text \<open>\<^verbatim>\<open>Conveyer.synchronize\<close>.\<close>

definition synchronize :: "conveyer \<Rightarrow> event list \<Rightarrow> event list" where
  "synchronize c tr = (if cv_stream c \<noteq> None then tr @ [DeviceSynchronize] else tr)"

text \<open>A sequence of calls on one channel: the results, the channel and the trace after
  the last call. A call that raises is recorded and the following calls go on with
  the channel as it was left.\<close>

fun conveyer_calls ::
  "conveyer \<Rightarrow> ndarray list \<Rightarrow> event list \<Rightarrow> (error + ndarray) list \<times> conveyer \<times> event list" where
  "conveyer_calls c [] tr = ([], c, tr)"
| "conveyer_calls c (a # as) tr =
     (case conveyer_call c a tr of
        (r, c', tr') \<Rightarrow>
          (case conveyer_calls c' as tr' of (rs, c'', tr'') \<Rightarrow> (r # rs, c'', tr'')))"

section \<open>The asynchronous batch transfer orchestrator\<close>

record async_transfer =
  at_stream :: "stream option"
  at_conveyer :: "(nat \<times> conveyer) list"

text \<open>\<^verbatim>\<open>ConcatWithAsyncTransfer.__init__\<close>.\<close>

definition ConcatWithAsyncTransfer :: "stream option \<Rightarrow> async_transfer" where
  "ConcatWithAsyncTransfer st = \<lparr>at_stream = st, at_conveyer = []\<rparr>"

text \<open>
  The body of the two slot loops (lines 196 to 200 and 214 to 218): the channel of
  slot \<open>i\<close> is created on first use, the slot is concatenated with the padding that
  the lookup \<open>plook\<close> gave, and the array goes through the channel.
\<close>

definition async_slot ::
  "async_transfer \<Rightarrow> int option \<Rightarrow> example list \<Rightarrow> nat \<Rightarrow> error + padding \<Rightarrow> event list
    \<Rightarrow> (error + ndarray) \<times> async_transfer \<times> event list" where
  "async_slot self dev batch i plook tr =
     (let self1 = (if map_of (at_conveyer self) i = None
                   then self\<lparr>at_conveyer :=
                          AList.update i (Conveyer dev (at_stream self)) (at_conveyer self)\<rparr>
                   else self)
      in (case list_comp (subscript_int i) batch of
            Inl e \<Rightarrow> (Inl e, self1, tr)
          | Inr vs \<Rightarrow>
              (case plook of
                 Inl e \<Rightarrow> (Inl e, self1, tr)
               | Inr p \<Rightarrow>
                   (case concat_arrays (map Val vs) p of
                      Inl e \<Rightarrow> (Inl e, self1, tr)
                    | Inr a \<Rightarrow>
                        (case map_of (at_conveyer self1) i of
                           None \<Rightarrow> (Inl KeyError, self1, tr)
                         | Some c \<Rightarrow>
                             (case conveyer_call c a tr of
                                (r, c', tr') \<Rightarrow>
                                  (r, self1\<lparr>at_conveyer :=
                                            AList.update i c' (at_conveyer self1)\<rparr>, tr')))))))"

fun async_tuple_loop ::
  "async_transfer \<Rightarrow> int option \<Rightarrow> example list \<Rightarrow> padding list \<Rightarrow> nat list \<Rightarrow> ndarray list
    \<Rightarrow> event list \<Rightarrow> (error + ndarray list) \<times> async_transfer \<times> event list" where
  "async_tuple_loop self dev batch ps [] res tr = (Inr res, self, tr)"
| "async_tuple_loop self dev batch ps (i # rest) res tr =
     (case async_slot self dev batch i (padding_at ps i) tr of
        (Inl e, self', tr') \<Rightarrow> (Inl e, self', tr')
      | (Inr a, self', tr') \<Rightarrow> async_tuple_loop self' dev batch ps rest (res @ [a]) tr')"

text \<open>Lines 203 to 204 and 221 to 222: \<^verbatim>\<open>self.conveyer[i].synchronize()\<close>.\<close>

definition sync_slot :: "async_transfer \<Rightarrow> nat \<Rightarrow> event list \<Rightarrow> error + event list" where
  "sync_slot self i tr =
     (case map_of (at_conveyer self) i of
        None \<Rightarrow> Inl KeyError
      | Some c \<Rightarrow> Inr (synchronize c tr))"

fun sync_loop :: "async_transfer \<Rightarrow> nat list \<Rightarrow> event list \<Rightarrow> (error + unit) \<times> event list" where
  "sync_loop self [] tr = (Inr (), tr)"
| "sync_loop self (i # rest) tr =
     (case sync_slot self i tr of
        Inl e \<Rightarrow> (Inl e, tr)
      | Inr tr' \<Rightarrow> sync_loop self rest tr')"

text \<open>
  The mapping branch, lines 213 to 222. Its loops run over the keys, but the body
  reads the local variable \<open>i\<close>, which only the loop of the tuple branch assigns:
  \<open>local_i\<close> is its value, \<open>None\<close> while it is unbound. Reading an unbound local
  raises. With a mapping as padding, \<^verbatim>\<open>padding[i]\<close> looks an integer up among keys
  that are strings.
\<close>

fun async_dict_loop ::
  "async_transfer \<Rightarrow> int option \<Rightarrow> example list \<Rightarrow> nat option \<Rightarrow> string list
    \<Rightarrow> (string \<times> ndarray) list \<Rightarrow> event list
    \<Rightarrow> (error + (string \<times> ndarray) list) \<times> async_transfer \<times> event list" where
  "async_dict_loop self dev batch local_i [] res tr = (Inr res, self, tr)"
| "async_dict_loop self dev batch local_i (k # rest) res tr =
     (case local_i of
        None \<Rightarrow> (Inl UnboundLocalError, self, tr)
      | Some i \<Rightarrow>
          (case async_slot self dev batch i (Inl KeyError) tr of
             (Inl e, self', tr') \<Rightarrow> (Inl e, self', tr')
           | (Inr a, self', tr') \<Rightarrow>
               async_dict_loop self' dev batch local_i rest (AList.update k a res) tr'))"

fun sync_dict_loop ::
  "async_transfer \<Rightarrow> nat option \<Rightarrow> string list \<Rightarrow> event list \<Rightarrow> (error + unit) \<times> event list" where
  "sync_dict_loop self local_i [] tr = (Inr (), tr)"
| "sync_dict_loop self local_i (k # rest) tr =
     (case local_i of
        None \<Rightarrow> (Inl UnboundLocalError, tr)
      | Some i \<Rightarrow>
          (case sync_slot self i tr of
             Inl e \<Rightarrow> (Inl e, tr)
           | Inr tr' \<Rightarrow> sync_dict_loop self local_i rest tr'))"

text \<open>\<^verbatim>\<open>ConcatWithAsyncTransfer.__call__\<close>: the result or the error, the object afterwards
  and the trace afterwards.\<close>

definition async_call ::
  "async_transfer \<Rightarrow> example list \<Rightarrow> int option \<Rightarrow> padding \<Rightarrow> event list
    \<Rightarrow> (error + result) \<times> async_transfer \<times> event list" where
  "async_call self batch dev pad tr =
     (if length batch = 0 then (Inl ValueError, self, tr)
      else
        let self1 = (case dev of
                       None \<Rightarrow> self
                     | Some d \<Rightarrow>
                         if 0 \<le> d \<and> at_stream self = None
                         then self\<lparr>at_stream := Some (Stream (nat d))\<rparr> else self);
            tr1 = (case dev of
                     None \<Rightarrow> tr
                   | Some d \<Rightarrow>
                       if 0 \<le> d \<and> at_stream self = None
                       then tr @ [StreamCreate (nat d)] else tr)
        in (case hd batch of
              Tuple first_elem \<Rightarrow>
                (case async_tuple_loop self1 dev batch (tuple_padding pad (length first_elem))
                        [0..<length first_elem] [] tr1 of
                   (Inl e, self2, tr2) \<Rightarrow> (Inl e, self2, tr2)
                 | (Inr res, self2, tr2) \<Rightarrow>
                     (case sync_loop self2 [0..<length first_elem] tr2 of
                        (Inl e, tr3) \<Rightarrow> (Inl e, self2, tr3)
                      | (Inr u, tr3) \<Rightarrow> (Inr (RTuple res), self2, tr3)))
            | Dict first_elem \<Rightarrow>
                (case async_dict_loop self1 dev batch None (map fst first_elem) [] tr1 of
                   (Inl e, self2, tr2) \<Rightarrow> (Inl e, self2, tr2)
                 | (Inr res, self2, tr2) \<Rightarrow>
                     (case sync_dict_loop self2 None (map fst first_elem) tr2 of
                        (Inl e, tr3) \<Rightarrow> (Inl e, self2, tr3)
                      | (Inr u, tr3) \<Rightarrow> (Inr (RDict res), self2, tr3)))
            | Val v \<Rightarrow>
                (case concat_arrays batch pad of
                   Inl e \<Rightarrow> (Inl e, self1, tr1)
                 | Inr a \<Rightarrow> (Inr (RArray (to_device dev a)), self1, tr1))))"


section \<open>Notions used in the statements\<close>

text \<open>A shape fits into another one of the same rank when no axis is longer.\<close>

definition fits :: "nat list \<Rightarrow> nat list \<Rightarrow> bool" where
  "fits s m = list_all2 (\<le>) s m"

text \<open>An array is valid when it has as many elements as its shape says and each
  element is a value of its dtype.\<close>

definition valid :: "ndarray \<Rightarrow> bool" where
  "valid a = (length (data a) = prod_list (shape a) \<and> list_all (\<lambda>v. astype (dtype a) v = v) (data a))"

text \<open>An array as an element of a batch.\<close>

definition array_example :: "ndarray \<Rightarrow> example" where
  "array_example a = Val (NdArray a)"

text \<open>
  A channel is on the asynchronous path when it has a device that is not negative
  and a stream. It reuses the pair at the front of \<open>array_set\<close> for an array when
  that pair holds a pinned buffer of the byte size of the array.
\<close>

definition asynchronous :: "conveyer \<Rightarrow> bool" where
  "asynchronous c =
     (case (cv_device c, cv_stream c) of (Some d, Some st) \<Rightarrow> 0 \<le> d | _ \<Rightarrow> False)"

definition reuses :: "conveyer \<Rightarrow> ndarray \<Rightarrow> bool" where
  "reuses c a =
     (case array_set c of (Some p, cp) # rest \<Rightarrow> nbytes p = nbytes a | _ \<Rightarrow> False)"

text \<open>The events that a call adds to the trace, the events that allocate a buffer,
  and the events of a call that follows a sequence of calls on a channel.\<close>

definition call_events :: "conveyer \<Rightarrow> ndarray \<Rightarrow> event list \<Rightarrow> event list" where
  "call_events c a tr = drop (length tr) (snd (snd (conveyer_call c a tr)))"

fun is_alloc :: "event \<Rightarrow> bool" where
  "is_alloc (AllocPinned n) = True"
| "is_alloc (EmptyLike s d) = True"
| "is_alloc _ = False"

definition events_after :: "conveyer \<Rightarrow> ndarray list \<Rightarrow> ndarray \<Rightarrow> event list" where
  "events_after c as a =
     (case conveyer_calls c as [] of (rs, c', tr') \<Rightarrow> call_events c' a tr')"

text \<open>A call has returned when its outcome is not an error.\<close>

fun returned :: "error + 'a \<Rightarrow> bool" where
  "returned (Inr x) = True"
| "returned (Inl e) = False"

section \<open>Row-major addressing\<close>

text \<open>The multi-indices inside a shape and the positions below the size of the shape
  correspond to each other, through \<open>offset\<close> one way and \<open>indices\<close> the other.\<close>

lemma length_indices: "length (indices s) = prod_list s"
  by (induction s) (simp_all add: length_concat comp_def sum_list_triv)

lemma nth_concat_uniform:
  "\<forall>xs\<in>set xss. length xs = n \<Longrightarrow> i < length xss \<Longrightarrow> k < n
    \<Longrightarrow> concat xss ! (i * n + k) = xss ! i ! k"
proof (induction xss arbitrary: i)
  case Nil
  then show ?case by simp
next
  case (Cons xs xss)
  show ?case
  proof (cases i)
    case 0
    with Cons.prems show ?thesis by (simp add: nth_append)
  next
    case (Suc i')
    with Cons.prems have "concat xss ! (i' * n + k) = xss ! i' ! k"
      by (intro Cons.IH) auto
    with Suc Cons.prems show ?thesis by (simp add: nth_append)
  qed
qed

lemma inside_Nil [simp]: "inside [] j = (j = [])"
  by (simp add: inside_def)

lemma inside_Cons: "inside (d # ds) j = (\<exists>i js. j = i # js \<and> i < d \<and> inside ds js)"
  by (cases j) (auto simp: inside_def)

lemma inside_Cons_Cons [simp]: "inside (d # ds) (i # js) = (i < d \<and> inside ds js)"
  by (simp add: inside_def)

lemma inside_length: "inside s j \<Longrightarrow> length j = length s"
  by (simp add: inside_def list_all2_lengthD)

lemma offset_less: "inside s j \<Longrightarrow> offset s j < prod_list s"
proof (induction s arbitrary: j)
  case Nil
  then show ?case by simp
next
  case (Cons d ds)
  then obtain i js where j: "j = i # js" "i < d" "inside ds js"
    by (auto simp: inside_Cons)
  then have "offset ds js < prod_list ds" by (auto intro: Cons.IH)
  moreover have "i * prod_list ds + prod_list ds \<le> d * prod_list ds"
    using j(2) by (metis Suc_leI mult_Suc mult_le_mono1 add.commute)
  ultimately show ?case using j by simp
qed

lemma indices_offset: "inside s j \<Longrightarrow> indices s ! offset s j = j"
proof (induction s arbitrary: j)
  case Nil
  then show ?case by simp
next
  case (Cons d ds)
  then obtain i js where j: "j = i # js" "i < d" "inside ds js"
    by (auto simp: inside_Cons)
  have o: "offset ds js < prod_list ds" using j(3) by (rule offset_less)
  have "concat (map (\<lambda>i. map ((#) i) (indices ds)) [0..<d]) ! (i * prod_list ds + offset ds js)
        = map (\<lambda>i. map ((#) i) (indices ds)) [0..<d] ! i ! offset ds js"
    using j(2) o by (intro nth_concat_uniform) (auto simp: length_indices)
  also have "\<dots> = i # indices ds ! offset ds js"
    using j(2) o by (simp add: length_indices)
  finally show ?case using j Cons.IH[OF j(3)] by simp
qed

lemma offset_indices:
  "k < prod_list s \<Longrightarrow> inside s (indices s ! k) \<and> offset s (indices s ! k) = k"
proof (induction s arbitrary: k)
  case Nil
  then show ?case by simp
next
  case (Cons d ds)
  let ?p = "prod_list ds"
  from Cons.prems have p: "0 < ?p" by (cases "?p = 0") auto
  from Cons.prems have q: "k div ?p < d"
    by (simp add: less_mult_imp_div_less mult.commute)
  have r: "k mod ?p < ?p" using p by simp
  have "concat (map (\<lambda>i. map ((#) i) (indices ds)) [0..<d]) ! (k div ?p * ?p + k mod ?p)
        = map (\<lambda>i. map ((#) i) (indices ds)) [0..<d] ! (k div ?p) ! (k mod ?p)"
    using q r by (intro nth_concat_uniform) (auto simp: length_indices)
  also have "\<dots> = (k div ?p) # indices ds ! (k mod ?p)"
    using q r by (simp add: length_indices)
  finally have e: "indices (d # ds) ! k = (k div ?p) # indices ds ! (k mod ?p)"
    by simp
  from Cons.IH[OF r] q show ?case unfolding e by simp
qed

lemma set_indices: "set (indices s) = {j. inside s j}"
proof (intro set_eqI iffI)
  fix j assume "j \<in> set (indices s)"
  then obtain k where "k < length (indices s)" "indices s ! k = j"
    by (auto simp: in_set_conv_nth)
  then show "j \<in> {j. inside s j}" using offset_indices[of k s] by (auto simp: length_indices)
next
  fix j assume "j \<in> {j. inside s j}"
  then have "inside s j" by simp
  then have "offset s j < length (indices s)" "indices s ! offset s j = j"
    by (simp_all add: offset_less length_indices indices_offset)
  then show "j \<in> set (indices s)" by (metis nth_mem)
qed

section \<open>Assignment into a region\<close>

lemma strip_ones_same [simp]: "strip_ones (length s) s = s"
  by (cases s) simp_all

lemma broadcastable_same [simp]: "broadcastable s s"
  by (simp add: broadcastable_def list_all_iff)

lemma bsource_same: "inside s j \<Longrightarrow> bsource s s j = offset s j"
proof -
  assume a: "inside s j"
  then have l: "length j = length s" by (rule inside_length)
  have "map (\<lambda>k. if s ! k = 1 then 0 else j ! k) [0..<length s] = j"
  proof (rule nth_equalityI)
    show "length (map (\<lambda>k. if s ! k = 1 then 0 else j ! k) [0..<length s]) = length j"
      using l by simp
  next
    fix i assume "i < length (map (\<lambda>k. if s ! k = 1 then 0 else j ! k) [0..<length s])"
    then have i: "i < length s" by simp
    with a l have "j ! i < s ! i" by (simp add: inside_def list_all2_conv_all_nth)
    with i show "map (\<lambda>k. if s ! k = 1 then 0 else j ! k) [0..<length s] ! i = j ! i"
      by auto
  qed
  moreover have "bsource s s j = offset s (map (\<lambda>k. if s ! k = 1 then 0 else j ! k) [0..<length s])"
    by (simp add: bsource_def Let_def cong: if_cong)
  ultimately show ?thesis by (simp only:)
qed

lemma assign_Inr:
  "broadcastable (shape src) b \<Longrightarrow>
   assign dst pre b src = Inr (dst\<lparr>data :=
        map (\<lambda>j. if take (length pre) j = pre \<and> inside b (drop (length pre) j)
                  then astype (dtype dst) (data src ! bsource (shape src) b (drop (length pre) j))
                  else data dst ! offset (shape dst) j)
            (indices (shape dst))\<rparr>)"
  by (simp add: assign_def)

lemma getitem_map_indices:
  "inside s j \<Longrightarrow> shape a = s \<Longrightarrow> data a = map f (indices s) \<Longrightarrow> getitem a j = f j"
  by (simp add: getitem_def offset_less length_indices indices_offset)

lemma map2_min_le: "list_all2 (\<le>) s m \<Longrightarrow> map2 min s m = (s :: nat list)"
  by (induction s m rule: list_all2_induct) (simp_all add: min_def)

lemma setitem_slices_fits:
  assumes "shape result = n # m" "i < n" "fits (shape src) m"
  shows "\<exists>r. setitem_slices result i src = Inr r \<and> shape r = n # m \<and> dtype r = dtype result
      \<and> device r = device result \<and>
      (\<forall>i' j. i' < n \<longrightarrow> inside m j \<longrightarrow> getitem r (i' # j) =
          (if i' = i \<and> inside (shape src) j
           then astype (dtype result) (getitem src j) else getitem result (i' # j)))"
proof -
  from assms(3) have l: "length (shape src) = length m"
    by (simp add: fits_def list_all2_lengthD)
  have b: "map2 min (shape src) m @ drop (length (shape src)) m = shape src"
    using assms(3) l by (simp add: fits_def map2_min_le)
  let ?r = "result\<lparr>data :=
        map (\<lambda>j. if take (length [i]) j = [i] \<and> inside (shape src) (drop (length [i]) j)
                  then astype (dtype result) (data src ! bsource (shape src) (shape src) (drop (length [i]) j))
                  else data result ! offset (shape result) j)
            (indices (shape result))\<rparr>"
  have e: "setitem_slices result i src = Inr ?r"
    using assms(1,2) l b by (simp add: setitem_slices_def assign_Inr)
  have "getitem ?r (i' # j) =
          (if i' = i \<and> inside (shape src) j
           then astype (dtype result) (getitem src j) else getitem result (i' # j))"
    if "i' < n" "inside m j" for i' j
  proof -
    have "inside (shape ?r) (i' # j)" using that assms(1) by simp
    then have "getitem ?r (i' # j) =
       (if take (length [i]) (i' # j) = [i] \<and> inside (shape src) (drop (length [i]) (i' # j))
                  then astype (dtype result) (data src ! bsource (shape src) (shape src) (drop (length [i]) (i' # j)))
                  else data result ! offset (shape result) (i' # j))"
      by (rule getitem_map_indices) simp_all
    then show ?thesis by (auto simp: bsource_same getitem_def)
  qed
  with e assms(1) show ?thesis by (intro exI[of _ ?r]) simp
qed

section \<open>The common shape\<close>

lemma bget_nth: "k < length xs \<Longrightarrow> bget xs k = xs ! k"
  by (auto simp: bget_def)

lemma map2_max_nth:
  "length m = length s \<Longrightarrow> map (\<lambda>k. max (m ! k) (s ! k)) [0..<length m] = map2 max m (s :: nat list)"
  by (rule nth_equalityI) simp_all

lemma np_not_equal_same_rank:
  assumes l: "length m = length s"
  shows "\<exists>ne. np_not_equal m s = Inr ne \<and> (np_any ne \<longleftrightarrow> m \<noteq> s)"
proof -
  let ?ne = "map (\<lambda>k. bget m k \<noteq> bget s k) [0..<length m]"
  have e: "np_not_equal m s = Inr ?ne"
    using l by (simp add: np_not_equal_def bcast_len_def)
  have "np_any ?ne \<longleftrightarrow> (\<exists>k<length m. bget m k \<noteq> bget s k)"
    by (simp add: np_any_def list_ex_iff Bex_def)
  also have "\<dots> \<longleftrightarrow> (\<exists>k<length m. m ! k \<noteq> s ! k)"
    using l by (auto simp: bget_nth)
  also have "\<dots> \<longleftrightarrow> m \<noteq> s"
    using l by (simp add: list_eq_iff_nth_eq)
  finally show ?thesis using e by blast
qed

lemma np_maximum_same_rank:
  assumes l: "length m = length s"
  shows "np_maximum m s = Inr (map2 max m s)"
proof -
  have "map (\<lambda>k. max (bget m k) (bget s k)) [0..<length m] = map (\<lambda>k. max (m ! k) (s ! k)) [0..<length m]"
    using l by (simp add: bget_nth)
  also have "\<dots> = map2 max m s" using l by (rule map2_max_nth)
  finally have "map (\<lambda>k. max (bget m k) (bget s k)) [0..<length m] = map2 max m s" .
  moreover have "np_maximum m s = Inr (map (\<lambda>k. max (bget m k) (bget s k)) [0..<length m])"
    using l by (simp add: np_maximum_def bcast_len_def)
  ultimately show ?thesis by (simp only:)
qed

lemma map2_max_same: "map2 max m m = (m :: nat list)"
  by (induction m) simp_all

lemma max_shape_same_rank:
  "\<forall>a\<in>set as. length (shape a) = length m \<Longrightarrow>
   max_shape m (map array_example as) = Inr (fold (\<lambda>a m. map2 max m (shape a)) as m)"
proof (induction as arbitrary: m)
  case Nil
  then show ?case by simp
next
  case (Cons a as)
  from Cons.prems have l: "length m = length (shape a)" by simp
  obtain ne where ne: "np_not_equal m (shape a) = Inr ne" "np_any ne \<longleftrightarrow> m \<noteq> shape a"
    using np_not_equal_same_rank[OF l] by blast
  have r: "\<forall>b\<in>set as. length (shape b) = length (map2 max m (shape a))"
    using Cons.prems l by simp
  show ?case
  proof (cases "m = shape a")
    case True
    with ne Cons.prems Cons.IH[of m] show ?thesis
      by (simp add: array_example_def map2_max_same)
  next
    case False
    with ne l Cons.IH[OF r] show ?thesis
      by (simp add: array_example_def np_maximum_same_rank)
  qed
qed

lemma fold_max_length:
  "\<forall>a\<in>set as. length (shape a) = length m \<Longrightarrow>
   length (fold (\<lambda>a m. map2 max m (shape a)) as m) = length m"
  by (induction as arbitrary: m) simp_all

lemma fold_max_nth:
  "\<forall>a\<in>set as. length (shape a) = length m \<Longrightarrow> k < length m \<Longrightarrow>
   fold (\<lambda>a m. map2 max m (shape a)) as m ! k = Max (insert (m ! k) ((\<lambda>a. shape a ! k) ` set as))"
proof (induction as arbitrary: m)
  case Nil
  then show ?case by simp
next
  case (Cons a as)
  have r: "\<forall>b\<in>set as. length (shape b) = length (map2 max m (shape a))"
    using Cons.prems by simp
  have k: "k < length (map2 max m (shape a))" using Cons.prems by simp
  have "fold (\<lambda>a m. map2 max m (shape a)) (a # as) m ! k =
        Max (insert (map2 max m (shape a) ! k) ((\<lambda>a. shape a ! k) ` set as))"
    using Cons.IH[OF r k] by simp
  also have "map2 max m (shape a) ! k = max (m ! k) (shape a ! k)"
    using Cons.prems by simp
  also have "Max (insert (max (m ! k) (shape a ! k)) ((\<lambda>a. shape a ! k) ` set as)) =
             Max (insert (m ! k) ((\<lambda>a. shape a ! k) ` set (a # as)))"
  proof (cases "as = []")
    case True
    then show ?thesis by (simp add: max.commute)
  next
    case False
    then show ?thesis by (simp add: max.assoc max.left_commute)
  qed
  finally show ?case .
qed

lemma fits_nth: "fits s m \<longleftrightarrow> length s = length m \<and> (\<forall>k<length m. s ! k \<le> m ! k)"
  by (auto simp: fits_def list_all2_conv_all_nth)

lemma fold_max_fits:
  assumes "\<forall>a\<in>set as. length (shape a) = length m" "b \<in> set as"
  shows "fits (shape b) (fold (\<lambda>a m. map2 max m (shape a)) as m)"
proof -
  have "shape b ! k \<le> fold (\<lambda>a m. map2 max m (shape a)) as m ! k" if "k < length m" for k
    using assms that by (simp add: fold_max_nth)
  with assms show ?thesis by (simp add: fits_nth fold_max_length)
qed

lemma fold_max_fits_init:
  assumes "\<forall>a\<in>set as. length (shape a) = length m"
  shows "fits m (fold (\<lambda>a m. map2 max m (shape a)) as m)"
proof -
  have "m ! k \<le> fold (\<lambda>a m. map2 max m (shape a)) as m ! k" if "k < length m" for k
    using assms that by (simp add: fold_max_nth)
  with assms show ?thesis by (simp add: fits_nth fold_max_length)
qed

section \<open>Filling and copying\<close>

lemma astype_bool8_id: "astype bool8 v = v \<longleftrightarrow> v = 0 \<or> v = 1"
  by auto

lemma astype_uint8_id: "astype uint8 v = v \<longleftrightarrow> 0 \<le> v \<and> v < 256"
proof
  assume "astype uint8 v = v"
  then have "v = v mod 256" by simp
  moreover have "0 \<le> v mod 256" "v mod 256 < 256" by simp_all
  ultimately show "0 \<le> v \<and> v < 256" by presburger
qed simp

lemma astype_int32_id: "astype int32 v = v \<longleftrightarrow> - 2147483648 \<le> v \<and> v < 2147483648"
proof
  assume "astype int32 v = v"
  then have "v + 2147483648 = (v + 2147483648) mod 4294967296" by simp
  moreover have "0 \<le> (v + 2147483648) mod 4294967296"
    "(v + 2147483648) mod 4294967296 < 4294967296" by simp_all
  ultimately show "- 2147483648 \<le> v \<and> v < 2147483648" by linarith
qed simp

lemma astype_int64_id:
  "astype int64 v = v \<longleftrightarrow> - 9223372036854775808 \<le> v \<and> v < 9223372036854775808"
proof
  assume "astype int64 v = v"
  then have "v + 9223372036854775808 = (v + 9223372036854775808) mod 18446744073709551616" by simp
  moreover have "0 \<le> (v + 9223372036854775808) mod 18446744073709551616"
    "(v + 9223372036854775808) mod 18446744073709551616 < 18446744073709551616" by simp_all
  ultimately show "- 9223372036854775808 \<le> v \<and> v < 9223372036854775808" by linarith
qed simp

lemma np_full_value:
  assumes "astype dt v = v"
  shows "np_full s v dt dev = Inr (filled s v dt dev)"
proof (cases dt)
  case bool8
  then show ?thesis by (simp add: np_full_def)
next
  case uint8
  with assms have "0 \<le> v \<and> v < 256" by (simp only: astype_uint8_id)
  then show ?thesis by (simp add: np_full_def)
next
  case int32
  with assms have "- 2147483648 \<le> v \<and> v < 2147483648" by (simp only: astype_int32_id)
  then show ?thesis by (simp add: np_full_def)
next
  case int64
  with assms have "- 9223372036854775808 \<le> v \<and> v < 9223372036854775808"
    by (simp only: astype_int64_id)
  then show ?thesis by (simp add: np_full_def)
qed

lemma getitem_filled: "inside s j \<Longrightarrow> getitem (filled s v dt dev) j = astype dt v"
  by (simp add: getitem_def filled_def offset_less)

lemma copy_loop_fits:
  assumes "shape result = n # m" "i + length as \<le> n" "\<forall>a\<in>set as. fits (shape a) m"
  shows "\<exists>r. copy_loop result i (map array_example as) = Inr r \<and> shape r = n # m
      \<and> dtype r = dtype result \<and> device r = device result \<and>
      (\<forall>i' j. i' < n \<longrightarrow> inside m j \<longrightarrow> getitem r (i' # j) =
          (if i \<le> i' \<and> i' < i + length as \<and> inside (shape (as ! (i' - i))) j
           then astype (dtype result) (getitem (as ! (i' - i)) j)
           else getitem result (i' # j)))"
  using assms
proof (induction as arbitrary: result i)
  case Nil
  then show ?case by simp
next
  case (Cons a as)
  from Cons.prems have i: "i < n" and f: "fits (shape a) m" by simp_all
  from setitem_slices_fits[OF Cons.prems(1) i f]
  obtain r1 where r1: "setitem_slices result i a = Inr r1" "shape r1 = n # m"
      "dtype r1 = dtype result" "device r1 = device result"
      "\<And>i' j. i' < n \<Longrightarrow> inside m j \<Longrightarrow> getitem r1 (i' # j) =
          (if i' = i \<and> inside (shape a) j
           then astype (dtype result) (getitem a j) else getitem result (i' # j))"
    by blast
  have p2: "Suc i + length as \<le> n" "\<forall>a\<in>set as. fits (shape a) m"
    using Cons.prems by simp_all
  from Cons.IH[OF r1(2) p2]
  obtain r where r: "copy_loop r1 (Suc i) (map array_example as) = Inr r" "shape r = n # m"
      "dtype r = dtype r1" "device r = device r1"
      "\<And>i' j. i' < n \<Longrightarrow> inside m j \<Longrightarrow> getitem r (i' # j) =
          (if Suc i \<le> i' \<and> i' < Suc i + length as \<and> inside (shape (as ! (i' - Suc i))) j
           then astype (dtype r1) (getitem (as ! (i' - Suc i)) j)
           else getitem r1 (i' # j))"
    by blast
  have e: "copy_loop result i (map array_example (a # as)) = Inr r"
    using r1(1) r(1) by (simp add: array_example_def)
  have "getitem r (i' # j) =
          (if i \<le> i' \<and> i' < i + length (a # as) \<and> inside (shape ((a # as) ! (i' - i))) j
           then astype (dtype result) (getitem ((a # as) ! (i' - i)) j)
           else getitem result (i' # j))" if h: "i' < n" "inside m j" for i' j
  proof (cases "i' = i")
    case True
    then show ?thesis using r(5)[OF h] r1(5)[OF h] by simp
  next
    case False
    show ?thesis
    proof (cases "i < i'")
      case True
      then have "(a # as) ! (i' - i) = as ! (i' - Suc i)"
        by (metis Suc_diff_Suc diff_Suc_eq_diff_pred nth_Cons_pos zero_less_diff diff_Suc_1 Suc_pred)
      with True False show ?thesis using r(5)[OF h] r1(5)[OF h] r1(3) by auto
    next
      case False
      with \<open>i' \<noteq> i\<close> show ?thesis using r(5)[OF h] r1(5)[OF h] by auto
    qed
  qed
  with e r r1 show ?case by (intro exI[of _ r]) simp
qed

section \<open>Concatenation with padding\<close>

lemma concat_arrays_padded:
  assumes "\<forall>a\<in>set (a0 # rest). length (shape a) = r" and pv: "astype (dtype a0) pv = pv"
  shows "\<exists>res. concat_arrays (map array_example (a0 # rest)) (PScalar pv) = Inr res \<and>
     shape res = Suc (length rest) # fold (\<lambda>a m. map2 max m (shape a)) rest (shape a0) \<and>
     dtype res = dtype a0 \<and> device res = device a0 \<and>
     (\<forall>i j. i < Suc (length rest) \<longrightarrow>
        inside (fold (\<lambda>a m. map2 max m (shape a)) rest (shape a0)) j \<longrightarrow>
        getitem res (i # j) =
          (if inside (shape ((a0 # rest) ! i)) j
           then astype (dtype a0) (getitem ((a0 # rest) ! i) j)
           else astype (dtype a0) pv))"
proof -
  let ?m = "fold (\<lambda>a m. map2 max m (shape a)) rest (shape a0)"
  let ?n = "Suc (length rest)"
  let ?full = "filled (?n # ?m) pv (dtype a0) (device a0)"
  have nf: "np_full (?n # ?m) pv (dtype a0) (device a0) = Inr ?full"
    using pv by (rule np_full_value)
  from assms(1) have rk: "\<forall>a\<in>set rest. length (shape a) = length (shape a0)" by simp
  have ms: "max_shape (shape a0) (map array_example rest) = Inr ?m"
    using rk by (rule max_shape_same_rank)
  have fit: "\<forall>a\<in>set (a0 # rest). fits (shape a) ?m"
    using fold_max_fits[OF rk] fold_max_fits_init[OF rk] by auto
  have sh: "shape ?full = ?n # ?m" by (simp add: filled_def)
  have le: "0 + length (a0 # rest) \<le> ?n" by simp
  from copy_loop_fits[OF sh le fit]
  obtain res where res: "copy_loop ?full 0 (map array_example (a0 # rest)) = Inr res"
      "shape res = ?n # ?m" "dtype res = dtype ?full" "device res = device ?full"
      "\<And>i' j. i' < ?n \<Longrightarrow> inside ?m j \<Longrightarrow> getitem res (i' # j) =
          (if 0 \<le> i' \<and> i' < 0 + length (a0 # rest) \<and> inside (shape ((a0 # rest) ! (i' - 0))) j
           then astype (dtype ?full) (getitem ((a0 # rest) ! (i' - 0)) j)
           else getitem ?full (i' # j))"
    by blast
  have e: "concat_arrays (map array_example (a0 # rest)) (PScalar pv) = Inr res"
    using ms res(1) nf
    by (simp add: concat_arrays_def concat_arrays_with_padding_def array_example_def)
  have c: "getitem res (i # j) =
          (if inside (shape ((a0 # rest) ! i)) j
           then astype (dtype a0) (getitem ((a0 # rest) ! i) j)
           else astype (dtype a0) pv)" if h: "i < ?n" "inside ?m j" for i j
  proof -
    have "getitem ?full (i # j) = astype (dtype a0) pv"
      using h by (intro getitem_filled) simp
    moreover have "dtype ?full = dtype a0" by (simp add: filled_def)
    ultimately show ?thesis using res(5)[OF h] h(1) by simp
  qed
  have "dtype res = dtype a0" "device res = device a0"
    using res(3,4) by (simp_all add: filled_def)
  with e res(2) c show ?thesis by (intro exI[of _ res]) simp
qed

lemma common_shape_Max:
  assumes "\<forall>a\<in>set (a0 # rest). length (shape a) = r"
  shows "fold (\<lambda>a m. map2 max m (shape a)) rest (shape a0) =
         map (\<lambda>k. Max ((\<lambda>a. shape a ! k) ` set (a0 # rest))) [0..<r]"
proof (rule nth_equalityI)
  from assms have rk: "\<forall>a\<in>set rest. length (shape a) = length (shape a0)" and r: "length (shape a0) = r"
    by simp_all
  show "length (fold (\<lambda>a m. map2 max m (shape a)) rest (shape a0)) =
        length (map (\<lambda>k. Max ((\<lambda>a. shape a ! k) ` set (a0 # rest))) [0..<r])"
    using rk r by (simp add: fold_max_length)
  fix k assume "k < length (fold (\<lambda>a m. map2 max m (shape a)) rest (shape a0))"
  then have k: "k < length (shape a0)" using rk by (simp add: fold_max_length)
  then show "fold (\<lambda>a m. map2 max m (shape a)) rest (shape a0) ! k =
        map (\<lambda>k. Max ((\<lambda>a. shape a ! k) ` set (a0 # rest))) [0..<r] ! k"
    using rk r by (simp add: fold_max_nth)
qed

lemma valid_getitem:
  "valid a \<Longrightarrow> inside (shape a) j \<Longrightarrow> astype (dtype a) (getitem a j) = getitem a j"
proof -
  assume v: "valid a" and i: "inside (shape a) j"
  then have "offset (shape a) j < length (data a)" by (simp add: valid_def offset_less)
  then have "data a ! offset (shape a) j \<in> set (data a)" by (rule nth_mem)
  with v show ?thesis by (simp add: valid_def getitem_def list_all_iff)
qed

section \<open>Concatenation without padding\<close>

lemma list_comp_subscript_none:
  "list_comp subscript_none (map array_example as) = Inr (map add_axis as)"
  by (induction as) (simp_all add: array_example_def)

lemma sum_list_ones: "sum_list (map (\<lambda>b. hd (shape (add_axis b))) as) = length as"
  by (induction as) (simp_all add: add_axis_def)

lemma concat_arrays_unpadded:
  assumes "\<forall>a\<in>set rest. shape a = shape a0"
  shows "concat_arrays (map array_example (a0 # rest)) PNone =
     Inr \<lparr>shape = Suc (length rest) # shape a0,
          dtype = fold (\<lambda>b d. result_type d (dtype b)) rest (dtype a0),
          data = concat (map (\<lambda>b. map (astype (fold (\<lambda>b d. result_type d (dtype b)) rest (dtype a0))) (data b))
                   (a0 # rest)),
          device = device a0\<rparr>"
proof -
  have c: "list_comp subscript_none (map array_example (a0 # rest)) = Inr (add_axis a0 # map add_axis rest)"
    using list_comp_subscript_none[of "a0 # rest"] by simp
  have n1: "\<not> list_ex (\<lambda>b. shape b = []) (add_axis a0 # map add_axis rest)"
    by (simp add: list_ex_iff add_axis_def)
  have n2: "\<not> list_ex (\<lambda>b. tl (shape b) \<noteq> tl (shape (add_axis a0))) (map add_axis rest)"
    using assms by (simp add: list_ex_iff add_axis_def)
  have f: "fold (\<lambda>b d. result_type d (dtype b)) (map add_axis rest) (dtype (add_axis a0)) =
           fold (\<lambda>b d. result_type d (dtype b)) rest (dtype a0)"
    by (simp add: fold_map comp_def add_axis_def)
  have s: "sum_list (map (\<lambda>b. hd (shape b)) (add_axis a0 # map add_axis rest)) = Suc (length rest)"
    using sum_list_ones[of "a0 # rest"] by (simp add: comp_def)
  have d: "map (\<lambda>b. map (astype dt) (data b)) (add_axis a0 # map add_axis rest) =
           map (\<lambda>b. map (astype dt) (data b)) (a0 # rest)" for dt
    by (simp add: add_axis_def)
  have "np_concatenate (add_axis a0 # map add_axis rest) =
     Inr \<lparr>shape = Suc (length rest) # shape a0,
          dtype = fold (\<lambda>b d. result_type d (dtype b)) rest (dtype a0),
          data = concat (map (\<lambda>b. map (astype (fold (\<lambda>b d. result_type d (dtype b)) rest (dtype a0))) (data b))
                   (a0 # rest)),
          device = device a0\<rparr>"
    unfolding np_concatenate_def list.case if_not_P[OF n1] if_not_P[OF n2] Let_def f s d
    by (simp add: add_axis_def)
  with c show ?thesis by (simp add: concat_arrays_def array_example_def)
qed

lemma take_drop_concat_uniform:
  "\<forall>xs\<in>set xss. length xs = n \<Longrightarrow> i < length xss \<Longrightarrow> take n (drop (i * n) (concat xss)) = xss ! i"
proof (induction xss arbitrary: i)
  case Nil
  then show ?case by simp
next
  case (Cons xs xss)
  show ?case
  proof (cases i)
    case 0
    with Cons.prems show ?thesis by simp
  next
    case (Suc i')
    with Cons.prems have "take n (drop (i' * n) (concat xss)) = xss ! i'"
      by (intro Cons.IH) auto
    with Suc Cons.prems show ?thesis by simp
  qed
qed

lemma astype_promote:
  assumes "astype d v = v" "dtype_rank d \<le> dtype_rank d'"
  shows "astype d' v = v"
proof (cases d)
  case bool8
  with assms(1) have "v = 0 \<or> v = 1" by (simp only: astype_bool8_id)
  then show ?thesis by (cases d') auto
next
  case uint8
  with assms(1) have v: "0 \<le> v \<and> v < 256" by (simp only: astype_uint8_id)
  from uint8 assms(2) consider "d' = uint8" | "d' = int32" | "d' = int64" by (cases d') auto
  then show ?thesis
  proof cases
    case 1 with v show ?thesis by (simp only: astype_uint8_id) next
    case 2 with v show ?thesis by (simp only: astype_int32_id) simp next
    case 3 with v show ?thesis by (simp only: astype_int64_id) simp
  qed
next
  case int32
  with assms(1) have v: "- 2147483648 \<le> v \<and> v < 2147483648" by (simp only: astype_int32_id)
  from int32 assms(2) consider "d' = int32" | "d' = int64" by (cases d') auto
  then show ?thesis
  proof cases
    case 1 with v show ?thesis by (simp only: astype_int32_id) next
    case 2 with v show ?thesis by (simp only: astype_int64_id) simp
  qed
next
  case int64
  with assms(2) have "d' = int64" by (cases d') auto
  with int64 assms(1) show ?thesis by simp
qed

lemma result_type_rank:
  "dtype_rank (result_type a b) = max (dtype_rank a) (dtype_rank b)"
  by (simp add: result_type_def max_def)

lemma fold_result_type_rank:
  "dtype_rank d \<le> dtype_rank (fold (\<lambda>b d. result_type d (dtype b)) as d) \<and>
   (\<forall>a\<in>set as. dtype_rank (dtype a) \<le> dtype_rank (fold (\<lambda>b d. result_type d (dtype b)) as d))"
proof (induction as arbitrary: d)
  case Nil
  then show ?case by simp
next
  case (Cons a as)
  from Cons.IH[of "result_type d (dtype a)"] show ?case
    by (auto simp: result_type_rank)
qed

lemma fold_result_type_same:
  "\<forall>a\<in>set as. dtype a = d \<Longrightarrow> fold (\<lambda>b d. result_type d (dtype b)) as d = d"
  by (induction as) (simp_all add: result_type_def)

lemma row_unpadded:
  assumes "\<forall>a\<in>set as. shape a = s \<and> valid a" "i < length as"
  shows "take (prod_list s) (drop (i * prod_list s)
           (concat (map (\<lambda>b. map (astype dt) (data b)) as))) = map (astype dt) (data (as ! i))"
proof -
  have "\<forall>xs\<in>set (map (\<lambda>b. map (astype dt) (data b)) as). length xs = prod_list s"
    using assms(1) by (auto simp: valid_def)
  from take_drop_concat_uniform[OF this, of i] assms(2) show ?thesis by simp
qed

lemma valid_promote:
  assumes "valid a" "dtype_rank (dtype a) \<le> dtype_rank dt"
  shows "map (astype dt) (data a) = data a"
proof -
  have "astype dt v = v" if "v \<in> set (data a)" for v
    using assms that astype_promote[of "dtype a" v dt] by (simp add: valid_def list_all_iff)
  then show ?thesis by (simp add: map_idI)
qed

lemma array_eqI:
  fixes a b :: ndarray
  assumes "shape a = shape b" "dtype a = dtype b" "device a = device b"
    "length (data a) = prod_list (shape a)" "length (data b) = prod_list (shape b)"
    "\<And>j. inside (shape a) j \<Longrightarrow> getitem a j = getitem b j"
  shows "a = b"
proof -
  have "data a = data b"
  proof (rule nth_equalityI)
    show "length (data a) = length (data b)" using assms(1,4,5) by simp
  next
    fix k assume "k < length (data a)"
    then have k: "k < prod_list (shape a)" using assms(4) by simp
    from offset_indices[OF k] assms(6)[of "indices (shape a) ! k"] assms(1)
    show "data a ! k = data b ! k" by (simp add: getitem_def)
  qed
  with assms(1,2,3) show ?thesis by simp
qed

lemma assign_length:
  "assign dst pre b src = Inr r \<Longrightarrow>
   shape r = shape dst \<and> length (data r) = prod_list (shape dst)"
  by (auto simp: assign_def length_indices split: if_splits)

lemma setitem_slices_length:
  "setitem_slices result i src = Inr r \<Longrightarrow>
   shape r = shape result \<and> length (data r) = prod_list (shape result)"
  by (cases "shape result") (auto simp: setitem_slices_def dest: assign_length split: if_splits)

lemma copy_loop_length:
  "copy_loop result i xs = Inr r \<Longrightarrow> length (data result) = prod_list (shape result) \<Longrightarrow>
   length (data r) = prod_list (shape r)"
proof (induction xs arbitrary: result i)
  case Nil
  then show ?case by simp
next
  case (Cons x xs)
  from Cons.prems(1) obtain src r1 where s: "as_array x = Inr src"
      "setitem_slices result i src = Inr r1" "copy_loop r1 (Suc i) xs = Inr r"
    by (auto split: sum.splits)
  from setitem_slices_length[OF s(2)] have "length (data r1) = prod_list (shape r1)" by simp
  with s(3) show ?case by (rule Cons.IH)
qed

lemma concat_arrays_padded_length:
  "concat_arrays (map array_example (a0 # rest)) (PScalar pv) = Inr res \<Longrightarrow>
   length (data res) = prod_list (shape res)"
proof -
  assume "concat_arrays (map array_example (a0 # rest)) (PScalar pv) = Inr res"
  then have "concat_arrays_with_padding (map array_example (a0 # rest)) (PScalar pv) = Inr res"
    by (simp add: concat_arrays_def array_example_def)
  then obtain m full where f: "np_full (Suc (length rest) # m) pv (dtype a0) (device a0) = Inr full"
      "copy_loop full 0 (map array_example (a0 # rest)) = Inr res"
    by (auto simp: concat_arrays_with_padding_def array_example_def
        simp del: copy_loop.simps split: sum.splits)
  from f(1) have "length (data full) = prod_list (shape full)"
    by (auto simp: np_full_def filled_def split: if_splits)
  with f(2) show ?thesis by (rule copy_loop_length)
qed

lemma fold_max_same_shape:
  "\<forall>a\<in>set as. shape a = s \<Longrightarrow> fold (\<lambda>a m. map2 max m (shape a)) as s = s"
  by (induction as) (simp_all add: map2_max_same)

lemma getitem_unpadded:
  assumes "\<forall>a\<in>set as. shape a = s \<and> valid a" "i < length as" "inside s j"
  shows "concat (map (\<lambda>b. map (astype dt) (data b)) as) ! (i * prod_list s + offset s j)
         = astype dt (getitem (as ! i) j)"
proof -
  have u: "\<forall>xs\<in>set (map (\<lambda>b. map (astype dt) (data b)) as). length xs = prod_list s"
    using assms(1) by (auto simp: valid_def)
  have o: "offset s j < prod_list s" using assms(3) by (rule offset_less)
  have m: "as ! i \<in> set as" using assms(2) by simp
  then have l: "length (data (as ! i)) = prod_list s" "shape (as ! i) = s"
    using assms(1) by (simp_all add: valid_def)
  have "concat (map (\<lambda>b. map (astype dt) (data b)) as) ! (i * prod_list s + offset s j)
        = map (\<lambda>b. map (astype dt) (data b)) as ! i ! offset s j"
    using u assms(2) o by (intro nth_concat_uniform) simp_all
  also have "\<dots> = astype dt (getitem (as ! i) j)"
    using assms(2) o l by (simp add: getitem_def)
  finally show ?thesis .
qed

section \<open>The transfer channel\<close>

lemma async_call_dict_unbound:
  "batch \<noteq> [] \<Longrightarrow> hd batch = Dict (kv # kvs) \<Longrightarrow>
   fst (async_call self batch dev pad tr) = Inl UnboundLocalError"
  by (simp add: async_call_def Let_def)

lemma transfer_events:
  "\<exists>evs. snd (snd (transfer c st pin cp a tr)) = tr @ evs \<and> \<not> list_ex is_alloc evs \<and>
         DeviceSynchronize \<notin> set evs"
  by (auto simp: transfer_def split: sum.splits option.splits)

lemma transfer_returned:
  "transfer c st pin cp a tr = (Inr r, c', tr') \<Longrightarrow>
   \<exists>pin'. array_set c' = array_set c @ [(Some pin', Some r)] \<and> shape pin' = shape pin \<and>
          dtype pin' = dtype pin"
  by (auto simp: transfer_def assign_def split: sum.splits option.splits if_splits)

lemma transfer_fresh:
  "\<exists>pin' cp'. transfer c st (fresh_buffer a Host) (Some (fresh_buffer a dev)) a tr =
      (Inr cp', c\<lparr>array_set := array_set c @ [(Some pin', Some cp')]\<rparr>,
       tr @ [CopyToPinned, CopyAsync st]) \<and>
     shape pin' = shape a \<and> dtype pin' = dtype a \<and> device pin' = Host \<and>
     shape cp' = shape a \<and> dtype cp' = dtype a \<and> device cp' = dev \<and> data cp' = data pin'"
proof -
  have s: "shape (fresh_buffer a Host) = shape a" "dtype (fresh_buffer a Host) = dtype a"
    "shape (fresh_buffer a dev) = shape a" "dtype (fresh_buffer a dev) = dtype a"
    "device (fresh_buffer a Host) = Host" "device (fresh_buffer a dev) = dev"
    by (simp_all add: fresh_buffer_def)
  have "broadcastable (shape a) (shape (fresh_buffer a Host))" by (simp add: s)
  then obtain pin' where p: "assign (fresh_buffer a Host) [] (shape (fresh_buffer a Host)) a = Inr pin'"
      "shape pin' = shape a" "dtype pin' = dtype a" "device pin' = Host"
    by (simp add: assign_def s)
  let ?cp = "(fresh_buffer a dev)\<lparr>data := data pin'\<rparr>"
  have "cupy_set (fresh_buffer a dev) pin' = Inr ?cp"
    using p by (simp add: cupy_set_def s)
  with p(1) have "transfer c st (fresh_buffer a Host) (Some (fresh_buffer a dev)) a tr =
      (Inr ?cp, c\<lparr>array_set := array_set c @ [(Some pin', Some ?cp)]\<rparr>,
       tr @ [CopyToPinned, CopyAsync st])"
    by (simp add: transfer_def)
  with p(2,3,4) s show ?thesis by (intro exI[of _ pin'] exI[of _ ?cp]) simp
qed

lemma nbytes_cong: "shape p = shape a \<Longrightarrow> dtype p = dtype a \<Longrightarrow> nbytes p = nbytes a"
  by (simp add: nbytes_def)

lemma conveyer_call_allocating:
  assumes "cv_device c = Some d" "0 \<le> d" "cv_stream c = Some st"
    "array_set c = front # rest" "\<not> reuses c a"
  shows "\<exists>pin' cp'. conveyer_call c a tr =
      (Inr cp', c\<lparr>array_set := rest @ [(Some pin', Some cp')]\<rparr>,
       tr @ [DeviceSynchronize, AllocPinned (nbytes a), EmptyLike (shape a) (dtype a),
             CopyToPinned, CopyAsync st]) \<and>
     shape pin' = shape a \<and> dtype pin' = dtype a"
proof -
  obtain pin0 cp0 where f: "front = (pin0, cp0)" by (cases front)
  have n: "(case pin0 of None \<Rightarrow> None
            | Some p \<Rightarrow> if nbytes p \<noteq> nbytes a then None else Some p) = None"
    using assms(4,5) f by (auto simp: reuses_def split: option.splits)
  let ?tr = "tr @ [DeviceSynchronize, AllocPinned (nbytes a), EmptyLike (shape a) (dtype a)]"
  from transfer_fresh[of "c\<lparr>array_set := rest\<rparr>" st a "Gpu (nat d)" ?tr]
  obtain pin' cp' where t:
    "transfer (c\<lparr>array_set := rest\<rparr>) st (fresh_buffer a Host) (Some (fresh_buffer a (Gpu (nat d)))) a ?tr =
      (Inr cp', c\<lparr>array_set := rest\<rparr>\<lparr>array_set := array_set (c\<lparr>array_set := rest\<rparr>) @ [(Some pin', Some cp')]\<rparr>,
       ?tr @ [CopyToPinned, CopyAsync st])"
    "shape pin' = shape a" "dtype pin' = dtype a"
    by blast
  have "conveyer_call c a tr =
      transfer (c\<lparr>array_set := rest\<rparr>) st (fresh_buffer a Host) (Some (fresh_buffer a (Gpu (nat d)))) a ?tr"
    using assms(1,2,3,4) f n by (simp add: conveyer_call_def Let_def)
  with t show ?thesis by (intro exI[of _ pin'] exI[of _ cp']) simp
qed

lemma conveyer_call_reusing:
  assumes "cv_device c = Some d" "0 \<le> d" "cv_stream c = Some st"
    "array_set c = (Some p, cp0) # rest" "nbytes p = nbytes a"
  shows "conveyer_call c a tr = transfer (c\<lparr>array_set := rest\<rparr>) st p cp0 a tr"
  using assms by (simp add: conveyer_call_def Let_def)

lemma asynchronousE:
  assumes "asynchronous c"
  obtains d st where "cv_device c = Some d" "0 \<le> d" "cv_stream c = Some st"
  using assms by (auto simp: asynchronous_def split: option.splits)

lemma call_events_allocating:
  assumes "asynchronous c" "array_set c = front # rest" "\<not> reuses c a"
  shows "\<exists>st. cv_stream c = Some st \<and> call_events c a tr =
     [DeviceSynchronize, AllocPinned (nbytes a), EmptyLike (shape a) (dtype a),
      CopyToPinned, CopyAsync st]"
proof -
  from assms(1) obtain d st where a: "cv_device c = Some d" "0 \<le> d" "cv_stream c = Some st"
    by (rule asynchronousE)
  from conveyer_call_allocating[OF a assms(2,3), of tr] a(3) show ?thesis
    by (auto simp: call_events_def)
qed

lemma call_events_reusing:
  assumes "asynchronous c" "reuses c a"
  shows "\<not> list_ex is_alloc (call_events c a tr) \<and> DeviceSynchronize \<notin> set (call_events c a tr)"
proof -
  from assms(1) obtain d st where a: "cv_device c = Some d" "0 \<le> d" "cv_stream c = Some st"
    by (rule asynchronousE)
  from assms(2) obtain p cp0 rest where s: "array_set c = (Some p, cp0) # rest" "nbytes p = nbytes a"
    by (auto simp: reuses_def split: list.splits option.splits)
  have e: "conveyer_call c a tr = transfer (c\<lparr>array_set := rest\<rparr>) st p cp0 a tr"
    using a s by (rule conveyer_call_reusing)
  from transfer_events[of "c\<lparr>array_set := rest\<rparr>" st p cp0 a tr] show ?thesis
    unfolding call_events_def e by auto
qed

lemma conveyer_call_after_allocating:
  assumes "asynchronous c" "array_set c = front # rest" "\<not> reuses c a"
  shows "\<exists>c' r tr' pin. conveyer_call c a tr = (Inr r, c', tr') \<and> asynchronous c' \<and>
      array_set c' = rest @ [(Some pin, Some r)] \<and> nbytes pin = nbytes a"
proof -
  from assms(1) obtain d st where a: "cv_device c = Some d" "0 \<le> d" "cv_stream c = Some st"
    by (rule asynchronousE)
  from conveyer_call_allocating[OF a assms(2,3), of tr]
  obtain pin' cp' where p: "conveyer_call c a tr =
      (Inr cp', c\<lparr>array_set := rest @ [(Some pin', Some cp')]\<rparr>,
       tr @ [DeviceSynchronize, AllocPinned (nbytes a), EmptyLike (shape a) (dtype a),
             CopyToPinned, CopyAsync st])" "shape pin' = shape a" "dtype pin' = dtype a"
    by blast
  have "asynchronous (c\<lparr>array_set := rest @ [(Some pin', Some cp')]\<rparr>)"
    using assms(1) by (simp add: asynchronous_def)
  moreover have "nbytes pin' = nbytes a" using p(2,3) by (rule nbytes_cong)
  ultimately show ?thesis using p(1) by auto
qed

lemma fresh_channel_three_calls:
  assumes "asynchronous c" "array_set c = [(None, None), (None, None)]"
  shows "list_ex is_alloc (events_after c [] a1) \<and> list_ex is_alloc (events_after c [a1] a2) \<and>
     (nbytes a3 = nbytes a1 \<longrightarrow> \<not> list_ex is_alloc (events_after c [a1, a2] a3))"
proof -
  have n0: "\<not> reuses c a1" using assms(2) by (simp add: reuses_def)
  from conveyer_call_after_allocating[OF assms(1,2) n0, of "[]"]
  obtain c1 r1 t1 p1 where c1: "conveyer_call c a1 [] = (Inr r1, c1, t1)" "asynchronous c1"
      "array_set c1 = [(None, None), (Some p1, Some r1)]" "nbytes p1 = nbytes a1"
    by auto
  have n1: "\<not> reuses c1 a2" using c1(3) by (simp add: reuses_def)
  from conveyer_call_after_allocating[OF c1(2,3) n1, of t1]
  obtain c2 r2 t2 p2 where c2: "conveyer_call c1 a2 t1 = (Inr r2, c2, t2)" "asynchronous c2"
      "array_set c2 = [(Some p1, Some r1), (Some p2, Some r2)]"
    by auto
  have e0: "events_after c [] a1 = call_events c a1 []" by (simp add: events_after_def)
  have e1: "events_after c [a1] a2 = call_events c1 a2 t1"
    using c1(1) by (simp add: events_after_def)
  have e2: "events_after c [a1, a2] a3 = call_events c2 a3 t2"
    using c1(1) c2(1) by (simp add: events_after_def)
  have "list_ex is_alloc (events_after c [] a1)"
    using call_events_allocating[OF assms(1,2) n0, of "[]"] unfolding e0 by auto
  moreover have "list_ex is_alloc (events_after c [a1] a2)"
    using call_events_allocating[OF c1(2,3) n1, of t1] unfolding e1 by auto
  moreover have "\<not> list_ex is_alloc (events_after c [a1, a2] a3)" if "nbytes a3 = nbytes a1"
  proof -
    have "reuses c2 a3" using c2(3) c1(4) that by (simp add: reuses_def)
    with c2(2) show ?thesis unfolding e2 by (simp add: call_events_reusing)
  qed
  ultimately show ?thesis by blast
qed

lemma conveyer_call_rotates:
  assumes "asynchronous c" "conveyer_call c a tr = (Inr r, c', tr')"
  shows "\<exists>front rest pin. array_set c = front # rest \<and> array_set c' = rest @ [(Some pin, Some r)]"
proof -
  from assms(1) obtain d st where a: "cv_device c = Some d" "0 \<le> d" "cv_stream c = Some st"
    by (rule asynchronousE)
  from assms(2) a obtain front rest where f: "array_set c = front # rest"
    by (cases "array_set c") (auto simp: conveyer_call_def)
  show ?thesis
  proof (cases "reuses c a")
    case False
    from conveyer_call_allocating[OF a f False, of tr] assms(2) f show ?thesis by auto
  next
    case True
    with f obtain p cp0 where s: "array_set c = (Some p, cp0) # rest" "nbytes p = nbytes a"
      by (auto simp: reuses_def split: option.splits prod.splits)
    have "conveyer_call c a tr = transfer (c\<lparr>array_set := rest\<rparr>) st p cp0 a tr"
      using a s by (rule conveyer_call_reusing)
    with assms(2) have "transfer (c\<lparr>array_set := rest\<rparr>) st p cp0 a tr = (Inr r, c', tr')"
      by simp
    from transfer_returned[OF this] s(1) show ?thesis by auto
  qed
qed

lemma conveyer_call_length:
  assumes "conveyer_call c a tr = (Inr r, c', tr')"
  shows "length (array_set c') = length (array_set c)"
proof (cases "asynchronous c")
  case True
  from conveyer_call_rotates[OF True assms] show ?thesis by auto
next
  case False
  then have "conveyer_call c a tr = (Inr (to_device (cv_device c) a), c, tr)"
    by (auto simp: asynchronous_def conveyer_call_def split: option.splits)
  with assms show ?thesis by simp
qed

lemma conveyer_calls_length:
  "list_all returned (fst (conveyer_calls c as tr)) \<Longrightarrow>
   length (array_set (fst (snd (conveyer_calls c as tr)))) = length (array_set c)"
proof (induction as arbitrary: c tr)
  case Nil
  then show ?case by simp
next
  case (Cons a as)
  obtain r c1 t1 where s: "conveyer_call c a tr = (r, c1, t1)" by (cases "conveyer_call c a tr")
  obtain rs c2 t2 where t: "conveyer_calls c1 as t1 = (rs, c2, t2)"
    by (cases "conveyer_calls c1 as t1")
  from Cons.prems s t have r: "returned r" "list_all returned (fst (conveyer_calls c1 as t1))"
    by simp_all
  from r(1) obtain x where "r = Inr x" by (cases r) auto
  with s have "length (array_set c1) = length (array_set c)"
    by (auto dest: conveyer_call_length)
  with Cons.IH[OF r(2)] s t show ?case by simp
qed

lemma conveyer_call_appends:
  assumes "asynchronous c" "conveyer_call c a tr = (Inr r, c', tr')"
  shows "asynchronous c' \<and>
     (\<exists>front rest pin. array_set c = front # rest \<and>
        array_set c' = rest @ [(Some pin, Some r)] \<and> nbytes pin = nbytes a)"
proof -
  from assms(1) obtain d st where a: "cv_device c = Some d" "0 \<le> d" "cv_stream c = Some st"
    by (rule asynchronousE)
  from assms(2) a obtain front rest where f: "array_set c = front # rest"
    by (cases "array_set c") (auto simp: conveyer_call_def)
  show ?thesis
  proof (cases "reuses c a")
    case False
    from conveyer_call_allocating[OF a f False, of tr]
    obtain pin' cp' where p: "conveyer_call c a tr =
      (Inr cp', c\<lparr>array_set := rest @ [(Some pin', Some cp')]\<rparr>,
       tr @ [DeviceSynchronize, AllocPinned (nbytes a), EmptyLike (shape a) (dtype a),
             CopyToPinned, CopyAsync st])" "shape pin' = shape a" "dtype pin' = dtype a"
      by blast
    have "nbytes pin' = nbytes a" using p(2,3) by (rule nbytes_cong)
    moreover have "asynchronous (c\<lparr>array_set := rest @ [(Some pin', Some cp')]\<rparr>)"
      using assms(1) by (simp add: asynchronous_def)
    ultimately show ?thesis using p(1) assms(2) f by auto
  next
    case True
    with f obtain p cp0 where s: "array_set c = (Some p, cp0) # rest" "nbytes p = nbytes a"
      by (auto simp: reuses_def split: option.splits prod.splits)
    have "conveyer_call c a tr = transfer (c\<lparr>array_set := rest\<rparr>) st p cp0 a tr"
      using a s by (rule conveyer_call_reusing)
    with assms(2) have t: "transfer (c\<lparr>array_set := rest\<rparr>) st p cp0 a tr = (Inr r, c', tr')"
      by simp
    from transfer_returned[OF t]
    obtain pin' where p: "array_set c' = rest @ [(Some pin', Some r)]" "shape pin' = shape p"
        "dtype pin' = dtype p"
      by auto
    have "nbytes pin' = nbytes a" using nbytes_cong[OF p(2,3)] s(2) by simp
    moreover have "asynchronous c'"
      using t assms(1)
      by (auto simp: transfer_def asynchronous_def split: sum.splits option.splits)
    ultimately show ?thesis using p(1) s(1) by auto
  qed
qed

lemma third_call_reuse:
  assumes "asynchronous c" "length (array_set c) = 2"
    "list_all returned (fst (conveyer_calls c [a1, a2] []))"
  shows "list_ex is_alloc (events_after c [a1, a2] a3) \<longleftrightarrow> nbytes a3 \<noteq> nbytes a1"
proof -
  obtain r1 c1 t1 where s1: "conveyer_call c a1 [] = (r1, c1, t1)" by (cases "conveyer_call c a1 []")
  obtain r2 c2 t2 where s2: "conveyer_call c1 a2 t1 = (r2, c2, t2)" by (cases "conveyer_call c1 a2 t1")
  from assms(3) s1 s2 obtain x1 x2 where x: "r1 = Inr x1" "r2 = Inr x2"
    by (cases r1; cases r2) auto
  from assms(2) obtain f1 f2 where f: "array_set c = [f1, f2]"
    by (cases "array_set c"; cases "tl (array_set c)") auto
  from conveyer_call_appends[OF assms(1) s1[unfolded x]] f
  obtain pin1 where c1: "asynchronous c1" "array_set c1 = [f2, (Some pin1, Some x1)]"
      "nbytes pin1 = nbytes a1"
    by auto
  from conveyer_call_appends[OF c1(1) s2[unfolded x]] c1(2)
  obtain pin2 where c2: "asynchronous c2" "array_set c2 = [(Some pin1, Some x1), (Some pin2, Some x2)]"
    by auto
  have e: "events_after c [a1, a2] a3 = call_events c2 a3 t2"
    using s1 s2 by (simp add: events_after_def)
  have r: "reuses c2 a3 \<longleftrightarrow> nbytes a3 = nbytes a1"
    using c2(2) c1(3) by (auto simp: reuses_def)
  show ?thesis
  proof (cases "reuses c2 a3")
    case True
    with c2(1) r show ?thesis unfolding e by (simp add: call_events_reusing)
  next
    case False
    with r show ?thesis using call_events_allocating[OF c2(1,2) False, of t2] unfolding e by auto
  qed
qed

section \<open>The properties stated by the specification\<close>

text \<open>
  C1. On a batch of mappings \<^verbatim>\<open>ConcatWithAsyncTransfer.__call__\<close> does not return the
  mapping that \<^verbatim>\<open>concat_examples\<close> returns: for the batch with the one example
  \<^verbatim>\<open>{"x": [1,2]}\<close>, \<^verbatim>\<open>concat_examples\<close> returns \<^verbatim>\<open>{"x": [[1,2]]}\<close>, and the asynchronous call
  raises \<^verbatim>\<open>UnboundLocalError\<close> on the first key, before any channel exists.
\<close>

theorem async_call_dict_raises:
  "concat_examples
     [Dict [(''x'', NdArray \<lparr>shape = [2], dtype = int64, data = [1, 2], device = Host\<rparr>)]]
     None PNone
   = Inr (RDict [(''x'', \<lparr>shape = [1, 2], dtype = int64, data = [1, 2], device = Host\<rparr>)]) \<and>
   async_call (ConcatWithAsyncTransfer None)
     [Dict [(''x'', NdArray \<lparr>shape = [2], dtype = int64, data = [1, 2], device = Host\<rparr>)]]
     None PNone []
   = (Inl UnboundLocalError, ConcatWithAsyncTransfer None, [])"
  by code_simp

text \<open>
  C2 (amended). For a non-empty batch of arrays of one rank and a padding value that
  the dtype of the first example represents, concatenation returns an array with
  that dtype, whose first axis has the length of the batch and whose other axes have
  the largest length any example has on that axis. A cell inside the extent of its
  example holds the datum of the example converted to the dtype of the first
  example: the datum itself when the example is valid and has that dtype. A cell
  outside holds the padding value.
\<close>

theorem concat_arrays_padding_cells:
  assumes "arrays \<noteq> []" and "\<forall>a\<in>set arrays. length (shape a) = r"
    and "astype (dtype (hd arrays)) pv = pv"
  shows "\<exists>res. concat_arrays (map array_example arrays) (PScalar pv) = Inr res \<and>
     shape res = length arrays # map (\<lambda>k. Max ((\<lambda>a. shape a ! k) ` set arrays)) [0..<r] \<and>
     dtype res = dtype (hd arrays) \<and>
     (\<forall>i<length arrays. \<forall>j. inside (tl (shape res)) j \<longrightarrow>
        getitem res (i # j) =
          (if inside (shape (arrays ! i)) j
           then astype (dtype (hd arrays)) (getitem (arrays ! i) j)
           else pv) \<and>
        (inside (shape (arrays ! i)) j \<and> valid (arrays ! i) \<and> dtype (arrays ! i) = dtype (hd arrays)
           \<longrightarrow> getitem res (i # j) = getitem (arrays ! i) j))"
proof -
  from assms(1) obtain a0 rest where ar: "arrays = a0 # rest" by (cases arrays) auto
  from assms(2) ar have rk: "\<forall>a\<in>set (a0 # rest). length (shape a) = r" by simp
  from assms(3) ar have pv: "astype (dtype a0) pv = pv" by simp
  let ?m = "fold (\<lambda>a m. map2 max m (shape a)) rest (shape a0)"
  from concat_arrays_padded[OF rk pv]
  obtain res where res: "concat_arrays (map array_example (a0 # rest)) (PScalar pv) = Inr res"
     "shape res = Suc (length rest) # ?m" "dtype res = dtype a0"
     "\<And>i j. i < Suc (length rest) \<Longrightarrow> inside ?m j \<Longrightarrow>
        getitem res (i # j) =
          (if inside (shape ((a0 # rest) ! i)) j
           then astype (dtype a0) (getitem ((a0 # rest) ! i) j)
           else astype (dtype a0) pv)"
    by blast
  have m: "?m = map (\<lambda>k. Max ((\<lambda>a. shape a ! k) ` set (a0 # rest))) [0..<r]"
    using rk by (rule common_shape_Max)
  have "getitem res (i # j) =
          (if inside (shape (arrays ! i)) j
           then astype (dtype (hd arrays)) (getitem (arrays ! i) j)
           else pv) \<and>
        (inside (shape (arrays ! i)) j \<and> valid (arrays ! i) \<and> dtype (arrays ! i) = dtype (hd arrays)
           \<longrightarrow> getitem res (i # j) = getitem (arrays ! i) j)"
    if h: "i < length arrays" "inside (tl (shape res)) j" for i j
  proof -
    from h ar res(2) have h': "i < Suc (length rest)" "inside ?m j" by simp_all
    have c: "getitem res (i # j) =
          (if inside (shape (arrays ! i)) j
           then astype (dtype (hd arrays)) (getitem (arrays ! i) j)
           else pv)"
      using res(4)[OF h'] ar pv by simp
    moreover have "getitem res (i # j) = getitem (arrays ! i) j"
      if "inside (shape (arrays ! i)) j" "valid (arrays ! i)" "dtype (arrays ! i) = dtype (hd arrays)"
      using c that valid_getitem[of "arrays ! i" j] by simp
    ultimately show ?thesis by blast
  qed
  then have c: "\<forall>i<length arrays. \<forall>j. inside (tl (shape res)) j \<longrightarrow>
        getitem res (i # j) =
          (if inside (shape (arrays ! i)) j
           then astype (dtype (hd arrays)) (getitem (arrays ! i) j)
           else pv) \<and>
        (inside (shape (arrays ! i)) j \<and> valid (arrays ! i) \<and> dtype (arrays ! i) = dtype (hd arrays)
           \<longrightarrow> getitem res (i # j) = getitem (arrays ! i) j)"
    by blast
  have e: "concat_arrays (map array_example arrays) (PScalar pv) = Inr res"
    using res(1) ar by simp
  have s: "shape res = length arrays # map (\<lambda>k. Max ((\<lambda>a. shape a ! k) ` set arrays)) [0..<r]"
    using res(2) m ar by simp
  have d: "dtype res = dtype (hd arrays)" using res(3) ar by simp
  from e s d c show ?thesis by blast
qed

theorem concat_arrays_padding_cells_witness:
  "\<exists>res. concat_arrays
       [array_example \<lparr>shape = [2], dtype = int64, data = [1, 2], device = Host\<rparr>,
        array_example \<lparr>shape = [3], dtype = int64, data = [3, 4, 5], device = Host\<rparr>]
       (PScalar 0) = Inr res \<and>
     shape res = [2, 3] \<and> dtype res = int64 \<and>
     getitem res [0, 1] = 2 \<and> getitem res [0, 2] = 0 \<and> getitem res [1, 2] = 5"
proof -
  let ?a = "\<lparr>shape = [2], dtype = int64, data = [1, 2], device = Host\<rparr>"
  let ?b = "\<lparr>shape = [3], dtype = int64, data = [3, 4, 5], device = Host\<rparr>"
  have "[?a, ?b] \<noteq> []" "\<forall>a\<in>set [?a, ?b]. length (shape a) = 1"
    "astype (dtype (hd [?a, ?b])) 0 = 0"
    by simp_all
  from concat_arrays_padding_cells[OF this]
  obtain res where res: "concat_arrays (map array_example [?a, ?b]) (PScalar 0) = Inr res"
     "shape res = length [?a, ?b] # map (\<lambda>k. Max ((\<lambda>a. shape a ! k) ` set [?a, ?b])) [0..<1]"
     "dtype res = dtype (hd [?a, ?b])"
     "\<And>i j. i < length [?a, ?b] \<Longrightarrow> inside (tl (shape res)) j \<Longrightarrow>
        getitem res (i # j) =
          (if inside (shape ([?a, ?b] ! i)) j
           then astype (dtype (hd [?a, ?b])) (getitem ([?a, ?b] ! i) j)
           else 0)"
    by blast
  have s: "shape res = [2, 3]" using res(2) by simp
  have "getitem res [0, 1] = 2" using res(4)[of 0 "[1]"] s by (simp add: getitem_def)
  moreover have "getitem res [0, 2] = 0" using res(4)[of 0 "[2]"] s by (simp add: getitem_def)
  moreover have "getitem res [1, 2] = 5" using res(4)[of 1 "[2]"] s by (simp add: getitem_def)
  ultimately show ?thesis using res(1,3) s by (intro exI[of _ res]) simp
qed

text \<open>
  C2 as it is stated fails in two ways. The result has the dtype of the first
  example, so a datum that this dtype does not represent is changed: after a \<open>uint8\<close>
  example, the datum 300 of an \<open>int64\<close> example arrives as 44. And a padding value
  that numpy cannot convert gives no result: with the padding \<open>2 ^ 64\<close> on \<open>int32\<close>
  examples, \<^verbatim>\<open>xp.full\<close> raises \<^verbatim>\<open>OverflowError\<close>.
\<close>

theorem concat_arrays_padding_counterexample:
  "concat_arrays
     [array_example \<lparr>shape = [2], dtype = uint8, data = [1, 2], device = Host\<rparr>,
      array_example \<lparr>shape = [3], dtype = int64, data = [300, 4, 5], device = Host\<rparr>]
     (PScalar 0)
   = Inr \<lparr>shape = [2, 3], dtype = uint8, data = [1, 2, 0, 44, 4, 5], device = Host\<rparr> \<and>
   getitem \<lparr>shape = [2, 3], dtype = uint8, data = [1, 2, 0, 44, 4, 5], device = Host\<rparr> [1, 0]
     \<noteq> getitem \<lparr>shape = [3], dtype = int64, data = [300, 4, 5], device = Host\<rparr> [0] \<and>
   concat_arrays
     [array_example \<lparr>shape = [2], dtype = int32, data = [1, 2], device = Host\<rparr>,
      array_example \<lparr>shape = [3], dtype = int32, data = [3, 4, 5], device = Host\<rparr>]
     (PScalar 18446744073709551616)
   = Inl OverflowError"
  by code_simp

text \<open>
  C3. For a non-empty batch of valid arrays of one shape, concatenation without
  padding returns an array whose first axis has the length of the batch and whose
  other axes are those of the examples. Its \<open>i\<close>-th slice along the first axis is the
  \<open>i\<close>-th example: the same shape and the same elements, held in the common dtype of
  the batch, which is the dtype of the examples when they all have the same one.
\<close>

theorem concat_arrays_same_shape:
  assumes "arrays \<noteq> []" and "\<forall>a\<in>set arrays. shape a = s \<and> valid a"
  shows "\<exists>res. concat_arrays (map array_example arrays) PNone = Inr res \<and>
     shape res = length arrays # s \<and>
     (\<forall>i<length arrays.
        shape (row res i) = shape (arrays ! i) \<and> data (row res i) = data (arrays ! i) \<and>
        row res i = (arrays ! i)\<lparr>dtype := dtype res, device := device res\<rparr>) \<and>
     ((\<forall>a\<in>set arrays. dtype a = dtype (hd arrays)) \<longrightarrow> dtype res = dtype (hd arrays))"
proof -
  from assms(1) obtain a0 rest where ar: "arrays = a0 # rest" by (cases arrays) auto
  let ?dt = "fold (\<lambda>b d. result_type d (dtype b)) rest (dtype a0)"
  let ?res = "\<lparr>shape = Suc (length rest) # shape a0, dtype = ?dt,
          data = concat (map (\<lambda>b. map (astype ?dt) (data b)) (a0 # rest)),
          device = device a0\<rparr>"
  from assms(2) ar have sh: "\<forall>a\<in>set rest. shape a = shape a0" and s: "shape a0 = s" by simp_all
  have e: "concat_arrays (map array_example arrays) PNone = Inr ?res"
    using concat_arrays_unpadded[OF sh] ar by simp
  have rw: "row ?res i = (arrays ! i)\<lparr>dtype := dtype ?res, device := device ?res\<rparr>"
    if i: "i < length arrays" for i
  proof -
    have m: "arrays ! i \<in> set arrays" using i by simp
    then have v: "valid (arrays ! i)" and si: "shape (arrays ! i) = s" using assms(2) by simp_all
    have "dtype_rank (dtype (arrays ! i)) \<le> dtype_rank ?dt"
      using fold_result_type_rank[of "dtype a0" rest] m ar by auto
    with v have p: "map (astype ?dt) (data (arrays ! i)) = data (arrays ! i)"
      by (rule valid_promote)
    have "take (prod_list s) (drop (i * prod_list s)
           (concat (map (\<lambda>b. map (astype ?dt) (data b)) arrays))) = map (astype ?dt) (data (arrays ! i))"
      using assms(2) i by (rule row_unpadded)
    with p ar s si show ?thesis by (simp add: row_def)
  qed
  have c: "\<forall>i<length arrays.
        shape (row ?res i) = shape (arrays ! i) \<and> data (row ?res i) = data (arrays ! i) \<and>
        row ?res i = (arrays ! i)\<lparr>dtype := dtype ?res, device := device ?res\<rparr>"
    using rw by simp
  have d: "(\<forall>a\<in>set arrays. dtype a = dtype (hd arrays)) \<longrightarrow> dtype ?res = dtype (hd arrays)"
    using ar fold_result_type_same[of rest "dtype a0"] by simp
  have sr: "shape ?res = length arrays # s" using ar s by simp
  from e sr c d show ?thesis by blast
qed

theorem concat_arrays_same_shape_witness:
  "\<exists>res. concat_arrays
       [array_example \<lparr>shape = [2], dtype = uint8, data = [1, 2], device = Host\<rparr>,
        array_example \<lparr>shape = [2], dtype = int64, data = [300, 4], device = Host\<rparr>]
       PNone = Inr res \<and>
     shape res = [2, 2] \<and>
     data (row res 0) = [1, 2] \<and> shape (row res 0) = [2] \<and>
     data (row res 1) = [300, 4] \<and> shape (row res 1) = [2]"
proof -
  let ?a = "\<lparr>shape = [2], dtype = uint8, data = [1, 2], device = Host\<rparr>"
  let ?b = "\<lparr>shape = [2], dtype = int64, data = [300, 4], device = Host\<rparr>"
  have "[?a, ?b] \<noteq> []" "\<forall>a\<in>set [?a, ?b]. shape a = [2] \<and> valid a"
    by (simp_all add: valid_def)
  from concat_arrays_same_shape[OF this]
  obtain res where res: "concat_arrays (map array_example [?a, ?b]) PNone = Inr res"
     "shape res = length [?a, ?b] # [2]"
     "\<And>i. i < length [?a, ?b] \<Longrightarrow>
        shape (row res i) = shape ([?a, ?b] ! i) \<and> data (row res i) = data ([?a, ?b] ! i)"
    by blast
  from res(3)[of 0] res(3)[of 1] res(1,2) show ?thesis by (intro exI[of _ res]) simp
qed

text \<open>
  C4. An empty batch makes both \<^verbatim>\<open>concat_examples\<close> and
  \<^verbatim>\<open>ConcatWithAsyncTransfer.__call__\<close> raise \<^verbatim>\<open>ValueError\<close> at once, whatever the device and
  the padding are: nothing is returned, and the orchestrator and the trace of the
  runtime are as they were.
\<close>

theorem empty_batch_raises:
  "concat_examples [] dev pad = Inl ValueError \<and>
   async_call self [] dev pad tr = (Inl ValueError, self, tr)"
  by (simp add: concat_examples_def async_call_def)

text \<open>
  C5 (amended). On the asynchronous path, a call allocates buffers exactly when the
  pair it pops is not reused, and the pair is reused exactly when it holds a pinned
  buffer of the byte size of the new array. A call that allocates synchronizes the
  whole device first and then allocates the pinned host buffer and the device buffer;
  a call that reuses neither allocates nor synchronizes. A new channel has two empty
  pairs, so its first two calls both allocate; no reallocation occurs on the third of
  three sequential calls when its array has the byte size of the first. On any
  channel with two pairs, after two calls that return, the next call allocates
  exactly when its array has not the byte size of the array two calls before.
\<close>

theorem conveyer_buffer_reuse:
  assumes "asynchronous c" and "array_set c \<noteq> []"
  shows "(list_ex is_alloc (call_events c a tr) \<longleftrightarrow> \<not> reuses c a) \<and>
     (\<not> reuses c a \<longrightarrow>
        (\<exists>st. cv_stream c = Some st \<and>
           call_events c a tr =
             [DeviceSynchronize, AllocPinned (nbytes a), EmptyLike (shape a) (dtype a),
              CopyToPinned, CopyAsync st])) \<and>
     (reuses c a \<longrightarrow> DeviceSynchronize \<notin> set (call_events c a tr)) \<and>
     (array_set c = [(None, None), (None, None)] \<longrightarrow>
        list_ex is_alloc (events_after c [] a1) \<and> list_ex is_alloc (events_after c [a1] a2) \<and>
        (nbytes a3 = nbytes a1 \<longrightarrow> \<not> list_ex is_alloc (events_after c [a1, a2] a3))) \<and>
     (length (array_set c) = 2 \<longrightarrow> list_all returned (fst (conveyer_calls c [a1, a2] [])) \<longrightarrow>
        (list_ex is_alloc (events_after c [a1, a2] a3) \<longleftrightarrow> nbytes a3 \<noteq> nbytes a1))"
proof -
  from assms(2) obtain front rest where f: "array_set c = front # rest"
    by (cases "array_set c") auto
  have 1: "\<exists>st. cv_stream c = Some st \<and> call_events c a tr =
          [DeviceSynchronize, AllocPinned (nbytes a), EmptyLike (shape a) (dtype a),
           CopyToPinned, CopyAsync st]" if "\<not> reuses c a"
    using assms(1) f that by (rule call_events_allocating)
  have 2: "\<not> list_ex is_alloc (call_events c a tr) \<and> DeviceSynchronize \<notin> set (call_events c a tr)"
    if "reuses c a"
    using assms(1) that by (rule call_events_reusing)
  have 3: "list_ex is_alloc (call_events c a tr) \<longleftrightarrow> \<not> reuses c a"
  proof (cases "reuses c a")
    case True
    with 2 show ?thesis by simp
  next
    case False
    with 1 show ?thesis by auto
  qed
  from 1 2 3 fresh_channel_three_calls[OF assms(1), of a1 a2 a3]
    third_call_reuse[OF assms(1), of a1 a2 a3]
  show ?thesis by blast
qed

theorem conveyer_buffer_reuse_witness:
  "list_ex is_alloc (call_events (Conveyer (Some 0) (Some (Stream 0)))
       \<lparr>shape = [2], dtype = int64, data = [1, 2], device = Host\<rparr> []) \<and>
   call_events (Conveyer (Some 0) (Some (Stream 0)))
       \<lparr>shape = [2], dtype = int64, data = [1, 2], device = Host\<rparr> []
     = [DeviceSynchronize, AllocPinned 16, EmptyLike [2] int64, CopyToPinned, CopyAsync (Stream 0)] \<and>
   \<not> list_ex is_alloc (events_after (Conveyer (Some 0) (Some (Stream 0)))
       [\<lparr>shape = [2], dtype = int64, data = [1, 2], device = Host\<rparr>,
        \<lparr>shape = [2], dtype = int64, data = [3, 4], device = Host\<rparr>]
       \<lparr>shape = [2], dtype = int64, data = [5, 6], device = Host\<rparr>)"
proof -
  let ?c = "Conveyer (Some 0) (Some (Stream 0))"
  let ?a1 = "\<lparr>shape = [2], dtype = int64, data = [1, 2], device = Host\<rparr>"
  let ?a2 = "\<lparr>shape = [2], dtype = int64, data = [3, 4], device = Host\<rparr>"
  let ?a3 = "\<lparr>shape = [2], dtype = int64, data = [5, 6], device = Host\<rparr>"
  have h: "asynchronous ?c" "array_set ?c \<noteq> []"
    by (simp_all add: asynchronous_def Conveyer_def)
  have r: "\<not> reuses ?c ?a1" by (simp add: reuses_def Conveyer_def)
  have f: "array_set ?c = [(None, None), (None, None)]" by (simp add: Conveyer_def)
  have n: "nbytes ?a3 = nbytes ?a1" "nbytes ?a1 = 16" "cv_stream ?c = Some (Stream 0)"
    by (simp_all add: nbytes_def Conveyer_def)
  from conveyer_buffer_reuse[OF h, of ?a1 "[]" ?a1 ?a2 ?a3] r f n show ?thesis by simp
qed

text \<open>
  C5 as it is stated fails in its last sentence: on a new channel, the second of two
  sequential calls with arrays of the same shape allocates again, because the pair it
  pops is the second empty pair.
\<close>

theorem conveyer_second_call_counterexample:
  "list_ex is_alloc (events_after (Conveyer (Some 0) (Some (Stream 0)))
       [\<lparr>shape = [2], dtype = int64, data = [1, 2], device = Host\<rparr>]
       \<lparr>shape = [2], dtype = int64, data = [3, 4], device = Host\<rparr>) \<and>
   events_after (Conveyer (Some 0) (Some (Stream 0)))
       [\<lparr>shape = [2], dtype = int64, data = [1, 2], device = Host\<rparr>]
       \<lparr>shape = [2], dtype = int64, data = [3, 4], device = Host\<rparr>
     = [DeviceSynchronize, AllocPinned 16, EmptyLike [2] int64, CopyToPinned, CopyAsync (Stream 0)]"
  by code_simp

text \<open>
  C6. \<^verbatim>\<open>to_device(None, x)\<close> is \<open>x\<close> itself; with a negative device the result is the
  array copied to host memory; with a device \<open>d \<ge> 0\<close> it is the array copied to
  accelerator \<open>d\<close>.
\<close>

theorem to_device_placement:
  "to_device None x = x \<and>
   (d < 0 \<longrightarrow> to_device (Some d) x = to_cpu x \<and> to_cpu x = x\<lparr>device := Host\<rparr>) \<and>
   (0 \<le> d \<longrightarrow> to_device (Some d) x = to_gpu x d \<and> to_gpu x d = x\<lparr>device := Gpu (nat d)\<rparr>)"
  by (simp add: to_cpu_def to_gpu_def)

theorem to_device_placement_witness:
  "to_device None \<lparr>shape = [2], dtype = int32, data = [1, 2], device = Gpu 1\<rparr>
     = \<lparr>shape = [2], dtype = int32, data = [1, 2], device = Gpu 1\<rparr> \<and>
   to_device (Some (- 1)) \<lparr>shape = [2], dtype = int32, data = [1, 2], device = Gpu 1\<rparr>
     = \<lparr>shape = [2], dtype = int32, data = [1, 2], device = Host\<rparr> \<and>
   to_device (Some 0) \<lparr>shape = [2], dtype = int32, data = [1, 2], device = Host\<rparr>
     = \<lparr>shape = [2], dtype = int32, data = [1, 2], device = Gpu 0\<rparr>"
  using to_device_placement [of "\<lparr>shape = [2], dtype = int32, data = [1, 2], device = Gpu 1\<rparr>" "- 1"]
    to_device_placement [of "\<lparr>shape = [2], dtype = int32, data = [1, 2], device = Host\<rparr>" 0]
  by simp

text \<open>
  C7. A channel without a device, with a negative device or without a stream places
  the array synchronously: the call returns \<^verbatim>\<open>to_device(self.device, array)\<close>, and the
  channel (its \<open>array_set\<close> in particular) and the trace stay as they were.
\<close>

theorem conveyer_call_synchronous:
  "cv_device c = None \<or> (\<exists>d. cv_device c = Some d \<and> d < 0) \<or> cv_stream c = None \<Longrightarrow>
   conveyer_call c array tr = (Inr (to_device (cv_device c) array), c, tr)"
  by (auto simp: conveyer_call_def split: option.splits)

theorem conveyer_call_synchronous_witness:
  "conveyer_call (Conveyer (Some (- 1)) (Some (Stream 0)))
      \<lparr>shape = [2], dtype = int32, data = [1, 2], device = Host\<rparr> []
    = (Inr \<lparr>shape = [2], dtype = int32, data = [1, 2], device = Host\<rparr>,
       Conveyer (Some (- 1)) (Some (Stream 0)), []) \<and>
   conveyer_call (Conveyer (Some 0) None)
      \<lparr>shape = [2], dtype = int32, data = [1, 2], device = Host\<rparr> []
    = (Inr \<lparr>shape = [2], dtype = int32, data = [1, 2], device = Gpu 0\<rparr>,
       Conveyer (Some 0) None, []) \<and>
   conveyer_call (Conveyer None (Some (Stream 0)))
      \<lparr>shape = [2], dtype = int32, data = [1, 2], device = Host\<rparr> []
    = (Inr \<lparr>shape = [2], dtype = int32, data = [1, 2], device = Host\<rparr>,
       Conveyer None (Some (Stream 0)), [])"
  using conveyer_call_synchronous [of "Conveyer (Some (- 1)) (Some (Stream 0))"
      "\<lparr>shape = [2], dtype = int32, data = [1, 2], device = Host\<rparr>" "[]"]
    conveyer_call_synchronous [of "Conveyer (Some 0) None"
      "\<lparr>shape = [2], dtype = int32, data = [1, 2], device = Host\<rparr>" "[]"]
    conveyer_call_synchronous [of "Conveyer None (Some (Stream 0))"
      "\<lparr>shape = [2], dtype = int32, data = [1, 2], device = Host\<rparr>" "[]"]
  by (simp add: Conveyer_def to_cpu_def to_gpu_def)

text \<open>
  C8. The scenario of the spec: the batch
  \<^verbatim>\<open>[{"x": [1,2], "y": 0}, {"x": [3,4,5], "y": 1}]\<close> (the \<open>x\<close> are arrays, the \<open>y\<close> built-in
  integers) with padding \<^verbatim>\<open>{"x": 0, "y": None}\<close> and no device gives the mapping
  \<^verbatim>\<open>{"x": [[1,2,0],[3,4,5]], "y": [0,1]}\<close>.
\<close>

theorem concat_examples_scenario:
  "concat_examples
     [Dict [(''x'', NdArray \<lparr>shape = [2], dtype = int64, data = [1, 2], device = Host\<rparr>),
            (''y'', PyScalar int64 0)],
      Dict [(''x'', NdArray \<lparr>shape = [3], dtype = int64, data = [3, 4, 5], device = Host\<rparr>),
            (''y'', PyScalar int64 1)]]
     None
     (PDict [(''x'', PScalar 0), (''y'', PNone)])
   = Inr (RDict
       [(''x'', \<lparr>shape = [2, 3], dtype = int64, data = [1, 2, 0, 3, 4, 5], device = Host\<rparr>),
        (''y'', \<lparr>shape = [2], dtype = int64, data = [0, 1], device = Host\<rparr>)])"
  by code_simp

text \<open>
  C9 (amended). A new channel has two pairs in \<open>array_set\<close>. A call on the
  asynchronous path that returns has popped one pair from the front and appended one
  pair at the back, and returns the device array of the pair it appended; so the pair
  handed out for reuse is the least recently issued one, and after any sequence of
  calls that all return \<open>array_set\<close> has two pairs.
\<close>

theorem array_set_rotation:
  "length (array_set (Conveyer dev st)) = 2 \<and>
   (asynchronous c \<longrightarrow> conveyer_call c a tr = (Inr r, c', tr') \<longrightarrow>
      (\<exists>front rest pin. array_set c = front # rest \<and>
         array_set c' = rest @ [(Some pin, Some r)])) \<and>
   (list_all returned (fst (conveyer_calls (Conveyer dev st) as tr)) \<longrightarrow>
      length (array_set (fst (snd (conveyer_calls (Conveyer dev st) as tr)))) = 2)"
proof -
  have "length (array_set (Conveyer dev st)) = 2" by (simp add: Conveyer_def)
  moreover from this have "length (array_set (fst (snd (conveyer_calls (Conveyer dev st) as tr)))) = 2"
    if "list_all returned (fst (conveyer_calls (Conveyer dev st) as tr))"
    using conveyer_calls_length[OF that] by simp
  ultimately show ?thesis using conveyer_call_rotates[of c a tr r c' tr'] by blast
qed

theorem array_set_rotation_witness:
  "length (array_set (fst (snd (conveyer_calls (Conveyer (Some 0) (Some (Stream 0)))
       [\<lparr>shape = [2], dtype = int64, data = [1, 2], device = Host\<rparr>,
        \<lparr>shape = [3], dtype = int64, data = [3, 4, 5], device = Host\<rparr>,
        \<lparr>shape = [2], dtype = int64, data = [6, 7], device = Host\<rparr>] [])))) = 2 \<and>
   (\<exists>front rest pin.
      array_set (Conveyer (Some 0) (Some (Stream 0))) = front # rest \<and>
      array_set (fst (snd (conveyer_call (Conveyer (Some 0) (Some (Stream 0)))
         \<lparr>shape = [2], dtype = int64, data = [1, 2], device = Host\<rparr> [])))
        = rest @ [(Some pin, Some \<lparr>shape = [2], dtype = int64, data = [1, 2], device = Gpu 0\<rparr>)])"
proof -
  let ?c = "Conveyer (Some 0) (Some (Stream 0))"
  let ?a = "\<lparr>shape = [2], dtype = int64, data = [1, 2], device = Host\<rparr>"
  let ?as = "[?a, \<lparr>shape = [3], dtype = int64, data = [3, 4, 5], device = Host\<rparr>,
        \<lparr>shape = [2], dtype = int64, data = [6, 7], device = Host\<rparr>]"
  have 1: "list_all returned (fst (conveyer_calls ?c ?as []))" by code_simp
  have 2: "asynchronous ?c" by (simp add: asynchronous_def Conveyer_def)
  have 3: "conveyer_call ?c ?a [] =
      (Inr \<lparr>shape = [2], dtype = int64, data = [1, 2], device = Gpu 0\<rparr>,
       fst (snd (conveyer_call ?c ?a [])), snd (snd (conveyer_call ?c ?a [])))"
    by code_simp
  from array_set_rotation[where dev = "Some 0" and st = "Some (Stream 0)" and c = ?c and a = ?a
      and tr = "[]" and r = "\<lparr>shape = [2], dtype = int64, data = [1, 2], device = Gpu 0\<rparr>"
      and c' = "fst (snd (conveyer_call ?c ?a []))" and tr' = "snd (snd (conveyer_call ?c ?a []))"
      and as = ?as] 1 2 3
  show ?thesis by blast
qed

text \<open>
  C9 as it is stated fails after a call that raises. A pair is reused for an array of
  the same byte size whatever its shape is; when the array does not fit the shape of
  the pinned buffer (here six elements in two rows, for a buffer with one axis),
  copying into the buffer raises after the pair has been popped and before it is
  appended, and one pair is left.
\<close>

theorem array_set_counterexample:
  "conveyer_calls (Conveyer (Some 0) (Some (Stream 0)))
       [\<lparr>shape = [6], dtype = int64, data = [1, 2, 3, 4, 5, 6], device = Host\<rparr>,
        \<lparr>shape = [6], dtype = int64, data = [1, 2, 3, 4, 5, 6], device = Host\<rparr>,
        \<lparr>shape = [2, 3], dtype = int64, data = [1, 2, 3, 4, 5, 6], device = Host\<rparr>] []
   = ([Inr \<lparr>shape = [6], dtype = int64, data = [1, 2, 3, 4, 5, 6], device = Gpu 0\<rparr>,
       Inr \<lparr>shape = [6], dtype = int64, data = [1, 2, 3, 4, 5, 6], device = Gpu 0\<rparr>,
       Inl ValueError],
      \<lparr>cv_device = Some 0, cv_stream = Some (Stream 0),
        array_set =
          [(Some \<lparr>shape = [6], dtype = int64, data = [1, 2, 3, 4, 5, 6], device = Host\<rparr>,
            Some \<lparr>shape = [6], dtype = int64, data = [1, 2, 3, 4, 5, 6], device = Gpu 0\<rparr>)]\<rparr>,
      [DeviceSynchronize, AllocPinned 48, EmptyLike [6] int64, CopyToPinned,
       CopyAsync (Stream 0),
       DeviceSynchronize, AllocPinned 48, EmptyLike [6] int64, CopyToPinned,
       CopyAsync (Stream 0)]) \<and>
   length (array_set (fst (snd (conveyer_calls (Conveyer (Some 0) (Some (Stream 0)))
       [\<lparr>shape = [6], dtype = int64, data = [1, 2, 3, 4, 5, 6], device = Host\<rparr>,
        \<lparr>shape = [6], dtype = int64, data = [1, 2, 3, 4, 5, 6], device = Host\<rparr>,
        \<lparr>shape = [2, 3], dtype = int64, data = [1, 2, 3, 4, 5, 6], device = Host\<rparr>] [])))) = 1"
  by code_simp

text \<open>
  C10 (amended). For a non-empty batch of valid arrays that all have the same shape
  and the same dtype, concatenation with any padding value that this dtype
  represents succeeds and returns exactly the array that concatenation without
  padding returns.
\<close>

theorem padding_irrelevant_same_shape:
  assumes "arrays \<noteq> []" and "\<forall>a\<in>set arrays. shape a = s \<and> dtype a = d \<and> valid a"
    and "astype d pv = pv"
  shows "\<exists>res. concat_arrays (map array_example arrays) (PScalar pv) = Inr res \<and>
               concat_arrays (map array_example arrays) PNone = Inr res"
proof -
  from assms(1) obtain a0 rest where ar: "arrays = a0 # rest" by (cases arrays) auto
  from assms(2) ar have sh: "\<forall>a\<in>set rest. shape a = shape a0" and s: "shape a0 = s"
    and dt: "\<forall>a\<in>set rest. dtype a = dtype a0" and rk: "\<forall>a\<in>set (a0 # rest). length (shape a) = length s"
    and sv: "\<forall>a\<in>set (a0 # rest). shape a = s \<and> valid a"
    by simp_all
  from assms(2,3) ar have pv: "astype (dtype a0) pv = pv" by simp
  have m: "fold (\<lambda>a m. map2 max m (shape a)) rest (shape a0) = s"
    using sh s fold_max_same_shape[of rest s] by simp
  have f: "fold (\<lambda>b d. result_type d (dtype b)) rest (dtype a0) = dtype a0"
    using dt by (rule fold_result_type_same)
  let ?u = "\<lparr>shape = Suc (length rest) # s, dtype = dtype a0,
          data = concat (map (\<lambda>b. map (astype (dtype a0)) (data b)) (a0 # rest)),
          device = device a0\<rparr>"
  have u: "concat_arrays (map array_example (a0 # rest)) PNone = Inr ?u"
    using concat_arrays_unpadded[OF sh] f s by simp
  from concat_arrays_padded[OF rk pv]
  obtain res where res: "concat_arrays (map array_example (a0 # rest)) (PScalar pv) = Inr res"
     "shape res = Suc (length rest) # s" "dtype res = dtype a0" "device res = device a0"
     "\<And>i j. i < Suc (length rest) \<Longrightarrow> inside s j \<Longrightarrow>
        getitem res (i # j) =
          (if inside (shape ((a0 # rest) ! i)) j
           then astype (dtype a0) (getitem ((a0 # rest) ! i) j)
           else astype (dtype a0) pv)"
    unfolding m by blast
  have lr: "length (data res) = prod_list (shape res)"
    using res(1) by (rule concat_arrays_padded_length)
  have lu: "length (data ?u) = prod_list (shape ?u)"
    using sv by (simp add: length_concat comp_def valid_def sum_list_triv cong: map_cong)
  have "res = ?u"
  proof (rule array_eqI)
    show "shape res = shape ?u" "dtype res = dtype ?u" "device res = device ?u"
      using res(2,3,4) by simp_all
    show "length (data res) = prod_list (shape res)" by (rule lr)
    show "length (data ?u) = prod_list (shape ?u)" by (rule lu)
  next
    fix J assume "inside (shape res) J"
    then obtain i j where J: "J = i # j" "i < Suc (length rest)" "inside s j"
      using res(2) by (auto simp: inside_Cons)
    have si: "shape ((a0 # rest) ! i) = s" using sv J(2) by (metis length_Cons nth_mem)
    have "getitem res J = astype (dtype a0) (getitem ((a0 # rest) ! i) j)"
      using res(5)[OF J(2,3)] J(1,3) si by simp
    moreover have "getitem ?u J = astype (dtype a0) (getitem ((a0 # rest) ! i) j)"
      using getitem_unpadded[OF sv, of i j "dtype a0"] J by (simp add: getitem_def)
    ultimately show "getitem res J = getitem ?u J" by simp
  qed
  with res(1) u ar show ?thesis by simp
qed

theorem padding_irrelevant_same_shape_witness:
  "concat_arrays
       [array_example \<lparr>shape = [2], dtype = int64, data = [1, 2], device = Host\<rparr>,
        array_example \<lparr>shape = [2], dtype = int64, data = [3, 4], device = Host\<rparr>]
       (PScalar 7)
   = concat_arrays
       [array_example \<lparr>shape = [2], dtype = int64, data = [1, 2], device = Host\<rparr>,
        array_example \<lparr>shape = [2], dtype = int64, data = [3, 4], device = Host\<rparr>]
       PNone"
proof -
  let ?a = "\<lparr>shape = [2], dtype = int64, data = [1, 2], device = Host\<rparr>"
  let ?b = "\<lparr>shape = [2], dtype = int64, data = [3, 4], device = Host\<rparr>"
  have "[?a, ?b] \<noteq> []" "\<forall>a\<in>set [?a, ?b]. shape a = [2] \<and> dtype a = int64 \<and> valid a"
    "astype int64 7 = 7"
    by (simp_all add: valid_def)
  from padding_irrelevant_same_shape[OF this] show ?thesis by auto
qed

text \<open>
  C10 as it is stated fails for a padding value that numpy cannot convert: on a batch
  of two \<open>int32\<close> arrays of one shape, concatenation with the padding \<open>2 ^ 64\<close> raises
  \<^verbatim>\<open>OverflowError\<close> in \<^verbatim>\<open>xp.full\<close>, and concatenation without padding returns an array.
\<close>

theorem padding_overflow_counterexample:
  "concat_arrays
     [array_example \<lparr>shape = [2], dtype = int32, data = [1, 2], device = Host\<rparr>,
      array_example \<lparr>shape = [2], dtype = int32, data = [3, 4], device = Host\<rparr>]
     (PScalar 18446744073709551616)
   = Inl OverflowError \<and>
   concat_arrays
     [array_example \<lparr>shape = [2], dtype = int32, data = [1, 2], device = Host\<rparr>,
      array_example \<lparr>shape = [2], dtype = int32, data = [3, 4], device = Host\<rparr>]
     PNone
   = Inr \<lparr>shape = [2, 2], dtype = int32, data = [1, 2, 3, 4], device = Host\<rparr>"
  by code_simp

end
